theory Spec2Isabelle
  imports Main "HOL-Library.Sublist"
begin

section \<open>The toast notification manager\<close>

text \<open>
  A shallow embedding of \<^verbatim>\<open>src/context/ToastContext.tsx\<close> (the provider that owns
  the ordered collection of toast records) and of the timer logic of
  \<^verbatim>\<open>src/components/feedback/Toast.tsx\<close> (the component the provider renders once
  per record).

  Time is a natural number of milliseconds. A JavaScript \<^verbatim>\<open>number\<close> that holds a
  duration is an \<open>int\<close>; fractional values and NaN are outside the model. The token that
  \<^verbatim>\<open>Math.random().toString(36).substring(2, 9)\<close> yields is an input of \<open>showToast\<close>.
  A state update \<^verbatim>\<open>setToasts(f)\<close> is applied at once, and the re-render it causes
  (mounting, updating and unmounting \<^verbatim>\<open>Toast\<close> components by their key, then running
  the effects whose dependencies changed) happens in the same transition.
\<close>

subsection \<open>Data\<close>

datatype ToastVariant = info | success | warning | error

text \<open>\<^verbatim>\<open>interface ToastOptions\<close>; \<open>'a\<close> is \<^verbatim>\<open>React.ReactNode\<close>, which the manager never inspects.\<close>

record 'a ToastOptions =
  variant :: "ToastVariant option"
  title :: "string option"
  description :: string
  duration :: "int option"
  action :: "'a option"

text \<open>\<^verbatim>\<open>interface ToastData extends ToastOptions\<close>.\<close>

record 'a ToastData = "'a ToastOptions" +
  id_toast :: string
  visible :: bool

text \<open>
  The local state of one mounted \<^verbatim>\<open>Toast\<close>: the props that matter for its timers
  (\<open>duration_prop\<close> after the default of the parameter list, \<open>visible_prop\<close>), the two
  \<^verbatim>\<open>useState\<close> cells, the React key and a number that tells instances apart.
\<close>

record Toast_state =
  inst :: nat
  key :: string
  duration_prop :: int
  visible_prop :: bool
  isVisible :: bool
  isLeaving :: bool

text \<open>
  The callbacks handed to \<^verbatim>\<open>setTimeout\<close>: the auto-close timer of a component
  (\<^verbatim>\<open>Toast.tsx\<close> line 88), the end of the exit animation started by
  \<^verbatim>\<open>handleClose\<close> (line 77; it captures the component and its \<^verbatim>\<open>onClose\<close>, that is
  the id of the record), and the clean-up of \<^verbatim>\<open>hideToast\<close>
  (\<^verbatim>\<open>ToastContext.tsx\<close> line 56).
\<close>

datatype callback = AutoClose nat | CloseAnimationEnd nat string | Cleanup string

type_synonym timer = "nat \<times> callback"

record 'a world =
  toasts :: "'a ToastData list"
  mounted :: "Toast_state list"
  timers :: "timer list"
  now :: nat
  nextInst :: nat

definition ToastProvider_init :: "'a world" where
  "ToastProvider_init = \<lparr>toasts = [], mounted = [], timers = [], now = 0, nextInst = 0\<rparr>"

definition ids :: "'a world \<Rightarrow> string list" where
  "ids w = map id_toast (toasts w)"

subsection \<open>The Toast component\<close>

text \<open>The parameter default \<^verbatim>\<open>duration = 5000\<close> of the component.\<close>

definition Toast_duration :: "int option \<Rightarrow> int" where
  "Toast_duration d = (case d of None \<Rightarrow> 5000 | Some n \<Rightarrow> n)"

definition Toast_mount :: "nat \<Rightarrow> 'a ToastData \<Rightarrow> Toast_state" where
  "Toast_mount n toast =
     \<lparr>inst = n, key = id_toast toast, duration_prop = Toast_duration (duration toast),
      visible_prop = visible toast, isVisible = visible toast, isLeaving = False\<rparr>"

text \<open>The condition \<^verbatim>\<open>duration && isVisible && !isLeaving\<close> of the auto-close effect.\<close>

definition autoClose_armed :: "Toast_state \<Rightarrow> bool" where
  "autoClose_armed c \<longleftrightarrow> duration_prop c \<noteq> 0 \<and> isVisible c \<and> \<not> isLeaving c"

text \<open>
  The delay that \<^verbatim>\<open>setTimeout\<close> waits: it takes a signed 32-bit number of
  milliseconds, so a negative delay is 0, and a delay above 2147483647 does not fit and
  the callback runs at once. The delays 300 and 500 of the other two timers fit.
\<close>

definition setTimeout_delay :: "int \<Rightarrow> nat" where
  "setTimeout_delay ms = (if ms < 0 \<or> 2147483647 < ms then 0 else nat ms)"

text \<open>The effect body: \<^verbatim>\<open>setTimeout(() => handleClose(), duration)\<close>.\<close>

definition autoClose_effect :: "nat \<Rightarrow> Toast_state \<Rightarrow> timer list \<Rightarrow> timer list" where
  "autoClose_effect t c ts =
     (if autoClose_armed c
      then ts @ [(t + setTimeout_delay (duration_prop c), AutoClose (inst c))]
      else ts)"

text \<open>The effect's clean-up: \<^verbatim>\<open>clearTimeout(timer)\<close>.\<close>

definition autoClose_cleanup :: "Toast_state \<Rightarrow> timer list \<Rightarrow> timer list" where
  "autoClose_cleanup c ts = filter (\<lambda>tm. snd tm \<noteq> AutoClose (inst c)) ts"

text \<open>The dependency list \<^verbatim>\<open>[duration, isVisible, isLeaving]\<close>.\<close>

definition deps :: "Toast_state \<Rightarrow> int \<times> bool \<times> bool" where
  "deps c = (duration_prop c, isVisible c, isLeaving c)"

definition rerender :: "nat \<Rightarrow> Toast_state \<Rightarrow> Toast_state \<Rightarrow> timer list \<Rightarrow> timer list" where
  "rerender t old new ts =
     (if deps old = deps new then ts else autoClose_effect t new (autoClose_cleanup old ts))"

text \<open>Apply a change to every mounted component and run the effects it triggers.\<close>

definition update_mounted :: "(Toast_state \<Rightarrow> Toast_state) \<Rightarrow> 'a world \<Rightarrow> 'a world" where
  "update_mounted f w =
     w\<lparr>mounted := map f (mounted w),
       timers := fold (\<lambda>c. rerender (now w) c (f c)) (mounted w) (timers w)\<rparr>"

text \<open>
  The second effect, on \<^verbatim>\<open>[visible]\<close>: \<^verbatim>\<open>setIsVisible(visible); if (visible) setIsLeaving(false)\<close>.
\<close>

definition receive_visible :: "bool \<Rightarrow> Toast_state \<Rightarrow> Toast_state" where
  "receive_visible v c =
     (if visible_prop c = v then c
      else c\<lparr>visible_prop := v, isVisible := v, isLeaving := (if v then False else isLeaving c)\<rparr>)"

text \<open>\<^verbatim>\<open>handleClose\<close>: \<^verbatim>\<open>setIsLeaving(true)\<close>, then the 300 ms timer.\<close>

definition handleClose :: "Toast_state \<Rightarrow> 'a world \<Rightarrow> 'a world" where
  "handleClose c w =
     (let w1 = update_mounted (\<lambda>c'. if inst c' = inst c then c'\<lparr>isLeaving := True\<rparr> else c') w
      in w1\<lparr>timers := timers w1 @ [(now w + 300, CloseAnimationEnd (inst c) (key c))]\<rparr>)"

subsection \<open>The provider\<close>

text \<open>\<^verbatim>\<open>options.duration || 5000\<close>: \<^verbatim>\<open>undefined\<close> and \<open>0\<close> are falsy.\<close>

definition or_number :: "int option \<Rightarrow> int \<Rightarrow> int" where
  "or_number d dflt = (case d of None \<Rightarrow> dflt | Some n \<Rightarrow> if n = 0 then dflt else n)"

text \<open>\<^verbatim>\<open>options.variant || 'info'\<close>: each of the four variants is a non-empty string.\<close>

definition or_variant :: "ToastVariant option \<Rightarrow> ToastVariant \<Rightarrow> ToastVariant" where
  "or_variant v dflt = (case v of None \<Rightarrow> dflt | Some x \<Rightarrow> x)"

definition new_toast :: "string \<Rightarrow> 'a ToastOptions \<Rightarrow> 'a ToastData" where
  "new_toast i options =
     \<lparr>variant = Some (or_variant (variant options) info),
      title = title options,
      description = description options,
      duration = Some (or_number (duration options) 5000),
      action = action options,
      id_toast = i,
      visible = True\<rparr>"

text \<open>
  \<^verbatim>\<open>showToast\<close>: the record is appended, its \<^verbatim>\<open>Toast\<close> is mounted (both effects run;
  the second changes nothing on mount), and the id is returned.
\<close>

definition showToast :: "string \<Rightarrow> 'a ToastOptions \<Rightarrow> 'a world \<Rightarrow> string \<times> 'a world" where
  "showToast token options w =
     (let toast = new_toast token options;
          c = Toast_mount (nextInst w) toast
      in (token,
          w\<lparr>toasts := toasts w @ [toast],
            mounted := mounted w @ [c],
            timers := autoClose_effect (now w) c (timers w),
            nextInst := nextInst w + 1\<rparr>))"

text \<open>
  \<^verbatim>\<open>hideToast\<close>: the \<^verbatim>\<open>map\<close> over the records, the re-render that hands
  \<^verbatim>\<open>visible = false\<close> to the components keyed by the id, and the 500 ms timer.
\<close>

definition hideToast :: "string \<Rightarrow> 'a world \<Rightarrow> 'a world" where
  "hideToast i w =
     (let w1 = w\<lparr>toasts := map (\<lambda>toast. if id_toast toast = i then toast\<lparr>visible := False\<rparr> else toast)
                             (toasts w)\<rparr>;
          w2 = update_mounted (\<lambda>c. if key c = i then receive_visible False c else c) w1
      in w2\<lparr>timers := timers w2 @ [(now w + 500, Cleanup i)]\<rparr>)"

text \<open>
  The body of the 500 ms timer: the \<^verbatim>\<open>filter\<close>, and the unmounting of the components
  whose record is gone (their effect clean-up runs).
\<close>

definition cleanup :: "string \<Rightarrow> 'a world \<Rightarrow> 'a world" where
  "cleanup i w =
     w\<lparr>toasts := filter (\<lambda>toast. id_toast toast \<noteq> i) (toasts w),
       mounted := filter (\<lambda>c. key c \<noteq> i) (mounted w),
       timers := fold autoClose_cleanup (filter (\<lambda>c. key c = i) (mounted w)) (timers w)\<rparr>"

text \<open>
  The body of the 300 ms timer of \<^verbatim>\<open>handleClose\<close>: \<^verbatim>\<open>setIsVisible(false)\<close> on the
  component (nothing when it is unmounted), then \<^verbatim>\<open>onClose()\<close>, which the provider
  bound to \<^verbatim>\<open>hideToast(toast.id)\<close>.
\<close>

definition closeAnimationEnd :: "nat \<Rightarrow> string \<Rightarrow> 'a world \<Rightarrow> 'a world" where
  "closeAnimationEnd n i w =
     hideToast i (update_mounted (\<lambda>c. if inst c = n then c\<lparr>isVisible := False\<rparr> else c) w)"

text \<open>The body of the auto-close timer: \<^verbatim>\<open>handleClose()\<close> of the component that set it.\<close>

definition autoClose :: "nat \<Rightarrow> 'a world \<Rightarrow> 'a world" where
  "autoClose n w = (case find (\<lambda>c. inst c = n) (mounted w) of None \<Rightarrow> w | Some c \<Rightarrow> handleClose c w)"

text \<open>A click on the close button, which exists while the component renders.\<close>

definition clickClose :: "nat \<Rightarrow> 'a world \<Rightarrow> 'a world" where
  "clickClose n w =
     (case find (\<lambda>c. inst c = n \<and> isVisible c) (mounted w) of
        None \<Rightarrow> w
      | Some c \<Rightarrow> handleClose c w)"

subsection \<open>The context hook\<close>

datatype js_error = Error string

record 'a ToastContextType =
  ctx_showToast :: "string \<Rightarrow> 'a ToastOptions \<Rightarrow> 'a world \<Rightarrow> string \<times> 'a world"
  ctx_hideToast :: "string \<Rightarrow> 'a world \<Rightarrow> 'a world"

text \<open>
  \<^verbatim>\<open>useContext(ToastContext)\<close>: the value of the nearest enclosing provider
  (the head of the list of enclosing provider values), or the default \<^verbatim>\<open>undefined\<close> of
  \<^verbatim>\<open>createContext\<close>.
\<close>

definition useContext :: "'c list \<Rightarrow> 'c option" where
  "useContext providers = (case providers of [] \<Rightarrow> None | v # _ \<Rightarrow> Some v)"

definition ToastProvider_value :: "'a ToastContextType" where
  "ToastProvider_value = \<lparr>ctx_showToast = showToast, ctx_hideToast = hideToast\<rparr>"

definition useToast :: "'c list \<Rightarrow> js_error + 'c" where
  "useToast providers =
     (let context = useContext providers
      in case context of
           None \<Rightarrow> Inl (Error ''useToast must be used within a ToastProvider'')
         | Some c \<Rightarrow> Inr c)"

subsection \<open>The event loop\<close>

text \<open>
  The timer that runs next, among those due by \<open>t\<close>: the earliest, and among equally
  early ones the first that was set.
\<close>

fun earliest :: "timer list \<Rightarrow> timer option" where
  "earliest [] = None"
| "earliest (x # xs) =
     (case earliest xs of
        None \<Rightarrow> Some x
      | Some y \<Rightarrow> if fst x \<le> fst y then Some x else Some y)"

definition next_due :: "nat \<Rightarrow> timer list \<Rightarrow> timer option" where
  "next_due t ts = earliest (filter (\<lambda>tm. fst tm \<le> t) ts)"

definition fire :: "timer \<Rightarrow> 'a world \<Rightarrow> 'a world" where
  "fire tm w =
     (let w0 = w\<lparr>timers := remove1 tm (timers w), now := max (now w) (fst tm)\<rparr>
      in case snd tm of
           AutoClose n \<Rightarrow> autoClose n w0
         | CloseAnimationEnd n i \<Rightarrow> closeAnimationEnd n i w0
         | Cleanup i \<Rightarrow> cleanup i w0)"

fun weight :: "timer \<Rightarrow> nat" where
  "weight (_, AutoClose _) = 3"
| "weight (_, CloseAnimationEnd _ _) = 2"
| "weight (_, Cleanup _) = 1"

definition pending :: "timer list \<Rightarrow> nat" where
  "pending ts = sum_list (map weight ts)"

text \<open>
  Letting time pass until \<open>t\<close> with no call from outside: the due timers run one after
  the other (a callback may set further timers, which run in the same pass when they are
  due), then the clock stands at \<open>t\<close>.
\<close>

function advance :: "nat \<Rightarrow> 'a world \<Rightarrow> 'a world" where
  "advance t w =
     (case next_due t (timers w) of
        None \<Rightarrow> w\<lparr>now := max (now w) t\<rparr>
      | Some tm \<Rightarrow> advance t (fire tm w))"
  by pat_completeness auto

subsection \<open>Runs\<close>

text \<open>What the outside can do: the two operations of the context, a click, and waiting.\<close>

datatype 'a event =
    ShowToast string "'a ToastOptions"
  | HideToast string
  | ClickClose nat
  | Advance nat

fun apply_event :: "'a event \<Rightarrow> 'a world \<Rightarrow> 'a world" where
  "apply_event (ShowToast token options) w = snd (showToast token options w)"
| "apply_event (HideToast i) w = hideToast i w"
| "apply_event (ClickClose n) w = clickClose n w"
| "apply_event (Advance t) w = advance t w"

fun exec :: "'a event list \<Rightarrow> 'a world \<Rightarrow> 'a world" where
  "exec [] w = w"
| "exec (e # es) w = exec es (apply_event e w)"

text \<open>
  The run draws, at each \<open>showToast\<close>, a token that no record held at that moment has
  as its id. The code does not check this; it is a condition on \<^verbatim>\<open>Math.random\<close>.
\<close>

fun fresh_tokens :: "'a event list \<Rightarrow> 'a world \<Rightarrow> bool" where
  "fresh_tokens [] w = True"
| "fresh_tokens (ShowToast token options # es) w =
     (token \<notin> set (ids w) \<and> fresh_tokens es (snd (showToast token options w)))"
| "fresh_tokens (e # es) w = fresh_tokens es (apply_event e w)"

subsection \<open>What a state holds\<close>

text \<open>The ids of the records that are visible; a record that is held and not visible is closing.\<close>

definition visible_ids :: "'a world \<Rightarrow> string list" where
  "visible_ids w = map id_toast (filter visible (toasts w))"

text \<open>The removals of the records with id \<open>i\<close> that are pending, in the order they were set.\<close>

definition removals :: "string \<Rightarrow> 'a world \<Rightarrow> nat list" where
  "removals i w = map fst (filter (\<lambda>tm. snd tm = Cleanup i) (timers w))"

text \<open>
  The run draws, at each \<open>showToast\<close>, a token that no record held has as its id
  and for which no removal is pending.
\<close>

fun new_tokens :: "'a event list \<Rightarrow> 'a world \<Rightarrow> bool" where
  "new_tokens [] w = True"
| "new_tokens (ShowToast token options # es) w =
     (token \<notin> set (ids w) \<and> removals token w = [] \<and>
      new_tokens es (snd (showToast token options w)))"
| "new_tokens (e # es) w = new_tokens es (apply_event e w)"

text \<open>
  No timer pending in \<open>w\<close> can lead to a removal of the records with id \<open>i\<close> by time
  \<open>t\<close>: a clean-up of \<open>i\<close> is due later than \<open>t\<close>, the end of an exit animation that
  will call \<open>hideToast i\<close> leaves 500 ms, and an auto-close of a component keyed \<open>i\<close>
  leaves 800 ms.
\<close>

definition undisturbed :: "string \<Rightarrow> nat \<Rightarrow> 'a world \<Rightarrow> bool" where
  "undisturbed i t w \<longleftrightarrow>
     (\<forall>tm \<in> set (timers w).
        case snd tm of
          Cleanup j \<Rightarrow> j = i \<longrightarrow> t < fst tm
        | CloseAnimationEnd n j \<Rightarrow> j = i \<longrightarrow> t < max (fst tm) (now w) + 500
        | AutoClose n \<Rightarrow>
            (\<forall>c \<in> set (mounted w). inst c = n \<and> key c = i \<longrightarrow> t < max (fst tm) (now w) + 800))"

text \<open>A provider with no record, no component and no timer, at time \<open>t0\<close>.\<close>

definition empty_world :: "nat \<Rightarrow> nat \<Rightarrow> 'a world" where
  "empty_world t0 n = \<lparr>toasts = [], mounted = [], timers = [], now = t0, nextInst = n\<rparr>"

text \<open>A change of component state that keeps instance and key and arms no auto-close.\<close>

definition quiet :: "(Toast_state \<Rightarrow> Toast_state) \<Rightarrow> bool" where
  "quiet f \<longleftrightarrow>
     (\<forall>c. inst (f c) = inst c \<and> key (f c) = key c \<and> (f c = c \<or> \<not> autoClose_armed (f c)))"

definition comp_keys :: "'a world \<Rightarrow> (nat \<times> string) set" where
  "comp_keys w = (\<lambda>c. (inst c, key c)) ` set (mounted w)"

text \<open>Two properties of the states a run reaches.\<close>

definition no_removal_while_visible :: "'a world \<Rightarrow> bool" where
  "no_removal_while_visible w \<longleftrightarrow> (\<forall>i \<in> set (visible_ids w). removals i w = [])"

definition closing_has_removal :: "'a world \<Rightarrow> bool" where
  "closing_has_removal w \<longleftrightarrow>
     (\<forall>i \<in> set (ids w). i \<notin> set (visible_ids w) \<longrightarrow>
        (\<exists>d \<in> set (removals i w). d \<le> now w + 500))"

subsection \<open>What an auto-close needs\<close>


text \<open>
  The token is in use by nothing: no record held has it as its id, and no pending
  timer of an earlier record with that id will call \<open>hideToast\<close> or the clean-up
  for it.
\<close>

definition token_unused :: "string \<Rightarrow> 'a world \<Rightarrow> bool" where
  "token_unused tok w \<longleftrightarrow>
     tok \<notin> set (ids w) \<and>
     list_all (\<lambda>tm. case snd tm of
                       AutoClose m \<Rightarrow> True
                     | CloseAnimationEnd m j \<Rightarrow> j \<noteq> tok
                     | Cleanup j \<Rightarrow> j \<noteq> tok) (timers w)"





subsection \<open>Concrete requests\<close>

definition request_plain :: "unit ToastOptions" where
  "request_plain =
     \<lparr>variant = Some success, title = None, description = ''Form submitted successfully!'',
      duration = None, action = None\<rparr>"

definition request_2000 :: "unit ToastOptions" where
  "request_2000 = request_plain\<lparr>duration := Some 2000\<rparr>"

definition request_zero :: "unit ToastOptions" where
  "request_zero = request_plain\<lparr>duration := Some 0\<rparr>"

text \<open>The provider after \<open>showToast\<close> of one request, and of two.\<close>

definition one_toast :: "unit ToastOptions \<Rightarrow> unit world" where
  "one_toast options = snd (showToast ''k3x9q2a'' options ToastProvider_init)"

definition two_toasts :: "unit world" where
  "two_toasts = exec [ShowToast ''a'' request_plain, ShowToast ''b'' request_2000] ToastProvider_init"


text \<open>A run in which the token of a removed record is drawn again.\<close>

definition demo_run :: "unit event list" where
  "demo_run = [ShowToast ''a'' request_plain, ShowToast ''b'' request_2000, HideToast ''a'',
               Advance 500, ShowToast ''a'' request_zero]"

text \<open>
  A run in which a second \<open>hideToast\<close> leaves a removal pending after its record is
  gone, and the same token is drawn again.
\<close>

definition stale_run :: "unit event list" where
  "stale_run = [ShowToast ''a'' request_plain, HideToast ''a'', Advance 300, HideToast ''a'',
                Advance 500, ShowToast ''a'' request_plain]"

section \<open>Termination of the event loop\<close>

text \<open>
  Each callback removes its own timer and sets at most one of the next kind
  (auto-close, then animation end, then clean-up); none of them arms an auto-close.
\<close>

lemma earliest_in: "earliest ts = Some x \<Longrightarrow> x \<in> set ts"
  by (induction ts arbitrary: x) (auto split: option.splits if_splits)

lemma next_due_in: "next_due t ts = Some x \<Longrightarrow> x \<in> set ts \<and> fst x \<le> t"
  unfolding next_due_def by (drule earliest_in) simp

lemma pending_remove1: "x \<in> set ts \<Longrightarrow> pending ts = weight x + pending (remove1 x ts)"
  unfolding pending_def by (simp add: sum_list_map_remove1)

lemma pending_filter_le: "pending (filter P ts) \<le> pending ts"
  unfolding pending_def by (induction ts) auto

lemma pending_append: "pending (ts @ us) = pending ts + pending us"
  unfolding pending_def by simp

lemma pending_single: "pending [tm] = weight tm"
  unfolding pending_def by simp

lemma pending_rerender_le:
  "f c = c \<or> \<not> autoClose_armed (f c) \<Longrightarrow> pending (rerender t c (f c) ts) \<le> pending ts"
  by (auto simp: rerender_def autoClose_effect_def autoClose_cleanup_def pending_filter_le)

lemma pending_fold_rerender_le:
  "(\<forall>c \<in> set cs. f c = c \<or> \<not> autoClose_armed (f c)) \<Longrightarrow>
   pending (fold (\<lambda>c. rerender t c (f c)) cs ts) \<le> pending ts"
proof (induction cs arbitrary: ts)
  case Nil
  then show ?case by simp
next
  case (Cons c cs)
  have "pending (fold (\<lambda>c. rerender t c (f c)) cs (rerender t c (f c) ts))
        \<le> pending (rerender t c (f c) ts)"
    using Cons by simp
  also have "\<dots> \<le> pending ts"
    using Cons.prems by (intro pending_rerender_le) simp
  finally show ?case by simp
qed

lemma pending_update_mounted_le:
  "(\<forall>c. f c = c \<or> \<not> autoClose_armed (f c)) \<Longrightarrow>
   pending (timers (update_mounted f w)) \<le> pending (timers w)"
  unfolding update_mounted_def by (simp add: pending_fold_rerender_le)

lemma pending_fold_cleanup_le: "pending (fold autoClose_cleanup cs ts) \<le> pending ts"
proof (induction cs arbitrary: ts)
  case Nil
  then show ?case by simp
next
  case (Cons c cs)
  have "pending (fold autoClose_cleanup cs (autoClose_cleanup c ts))
        \<le> pending (autoClose_cleanup c ts)"
    using Cons by simp
  also have "\<dots> \<le> pending ts"
    by (simp add: autoClose_cleanup_def pending_filter_le)
  finally show ?case by simp
qed

lemma pending_hideToast: "pending (timers (hideToast i w)) \<le> pending (timers w) + 1"
proof -
  let ?f = "\<lambda>c. if key c = i then receive_visible False c else c"
  let ?w1 = "w\<lparr>toasts := map (\<lambda>toast. if id_toast toast = i then toast\<lparr>visible := False\<rparr> else toast)
                            (toasts w)\<rparr>"
  have "\<forall>c. ?f c = c \<or> \<not> autoClose_armed (?f c)"
    by (simp add: receive_visible_def autoClose_armed_def)
  from pending_update_mounted_le [OF this, of ?w1] show ?thesis
    by (simp add: hideToast_def Let_def pending_append pending_single update_mounted_def)
qed

lemma pending_handleClose: "pending (timers (handleClose c w)) \<le> pending (timers w) + 2"
proof -
  let ?f = "\<lambda>c'. if inst c' = inst c then c'\<lparr>isLeaving := True\<rparr> else c'"
  have "\<forall>c. ?f c = c \<or> \<not> autoClose_armed (?f c)"
    by (simp add: autoClose_armed_def)
  from pending_update_mounted_le [OF this, of w] show ?thesis
    by (simp add: handleClose_def Let_def pending_append pending_single)
qed

lemma pending_closeAnimationEnd:
  "pending (timers (closeAnimationEnd n i w)) \<le> pending (timers w) + 1"
proof -
  let ?f = "\<lambda>c. if inst c = n then c\<lparr>isVisible := False\<rparr> else c"
  have "\<forall>c. ?f c = c \<or> \<not> autoClose_armed (?f c)"
    by (simp add: autoClose_armed_def)
  from pending_update_mounted_le [OF this, of w]
  have "pending (timers (update_mounted ?f w)) \<le> pending (timers w)" .
  with pending_hideToast [of i "update_mounted ?f w"] show ?thesis
    by (simp add: closeAnimationEnd_def)
qed

lemma pending_cleanup: "pending (timers (cleanup i w)) \<le> pending (timers w)"
  by (simp add: cleanup_def pending_fold_cleanup_le)

lemma pending_autoClose: "pending (timers (autoClose n w)) \<le> pending (timers w) + 2"
  using pending_handleClose [of _ w] by (auto simp: autoClose_def split: option.splits)

lemma pending_fire:
  assumes "tm \<in> set (timers w)"
  shows "pending (timers (fire tm w)) < pending (timers w)"
proof -
  let ?w0 = "w\<lparr>timers := remove1 tm (timers w), now := max (now w) (fst tm)\<rparr>"
  have p: "pending (timers w) = weight tm + pending (timers ?w0)"
    using pending_remove1 [OF assms] by simp
  obtain d cb where tm: "tm = (d, cb)" by (cases tm)
  show ?thesis
  proof (cases cb)
    case (AutoClose n)
    with p tm pending_autoClose [of n ?w0] show ?thesis by (simp add: fire_def)
  next
    case (CloseAnimationEnd n i)
    with p tm pending_closeAnimationEnd [of n i ?w0] show ?thesis by (simp add: fire_def)
  next
    case (Cleanup i)
    with p tm pending_cleanup [of i ?w0] show ?thesis by (simp add: fire_def)
  qed
qed

termination advance
  by (relation "measure (\<lambda>(t, w). pending (timers w))")
     (auto dest: next_due_in intro: pending_fire)

declare advance.simps [simp del]

lemma advance_idle: "next_due t (timers w) = None \<Longrightarrow> advance t w = w\<lparr>now := max (now w) t\<rparr>"
  by (subst advance.simps) simp

lemma advance_fire: "next_due t (timers w) = Some tm \<Longrightarrow> advance t w = advance t (fire tm w)"
  by (subst advance.simps) simp

section \<open>What each operation does to the state\<close>

lemma toasts_update_mounted [simp]: "toasts (update_mounted f w) = toasts w"
  by (simp add: update_mounted_def)

lemma now_update_mounted [simp]: "now (update_mounted f w) = now w"
  by (simp add: update_mounted_def)

lemma mounted_update_mounted [simp]: "mounted (update_mounted f w) = map f (mounted w)"
  by (simp add: update_mounted_def)

lemma toasts_hideToast:
  "toasts (hideToast i w) =
     map (\<lambda>toast. if id_toast toast = i then toast\<lparr>visible := False\<rparr> else toast) (toasts w)"
  by (simp add: hideToast_def Let_def)

lemma now_hideToast [simp]: "now (hideToast i w) = now w"
  by (simp add: hideToast_def Let_def)

lemma toasts_handleClose [simp]: "toasts (handleClose c w) = toasts w"
  by (simp add: handleClose_def Let_def)

lemma now_handleClose [simp]: "now (handleClose c w) = now w"
  by (simp add: handleClose_def Let_def)

lemma toasts_autoClose [simp]: "toasts (autoClose n w) = toasts w"
  by (simp add: autoClose_def split: option.splits)

lemma now_autoClose [simp]: "now (autoClose n w) = now w"
  by (simp add: autoClose_def split: option.splits)

lemma toasts_clickClose [simp]: "toasts (clickClose n w) = toasts w"
  by (simp add: clickClose_def split: option.splits)

lemma toasts_cleanup: "toasts (cleanup i w) = filter (\<lambda>toast. id_toast toast \<noteq> i) (toasts w)"
  by (simp add: cleanup_def)

lemma now_cleanup [simp]: "now (cleanup i w) = now w"
  by (simp add: cleanup_def)

lemma toasts_closeAnimationEnd:
  "toasts (closeAnimationEnd n i w) =
     map (\<lambda>toast. if id_toast toast = i then toast\<lparr>visible := False\<rparr> else toast) (toasts w)"
  by (simp add: closeAnimationEnd_def toasts_hideToast)

lemma now_closeAnimationEnd [simp]: "now (closeAnimationEnd n i w) = now w"
  by (simp add: closeAnimationEnd_def)

lemma toasts_fire:
  "toasts (fire tm w) =
     (case snd tm of
        AutoClose n \<Rightarrow> toasts w
      | CloseAnimationEnd n i \<Rightarrow>
          map (\<lambda>toast. if id_toast toast = i then toast\<lparr>visible := False\<rparr> else toast) (toasts w)
      | Cleanup i \<Rightarrow> filter (\<lambda>toast. id_toast toast \<noteq> i) (toasts w))"
  by (simp add: fire_def Let_def toasts_cleanup toasts_closeAnimationEnd split: callback.splits)

lemma now_fire [simp]: "now (fire tm w) = max (now w) (fst tm)"
  by (simp add: fire_def Let_def split: callback.splits)

lemma toasts_showToast:
  "toasts (snd (showToast token options w)) = toasts w @ [new_toast token options]"
  by (simp add: showToast_def Let_def)

subsection \<open>The identifiers held\<close>

lemma ids_hideToast [simp]: "ids (hideToast i w) = ids w"
  by (simp add: ids_def toasts_hideToast comp_def if_distrib cong: if_cong)

lemma ids_showToast [simp]: "ids (snd (showToast token options w)) = ids w @ [token]"
  by (simp add: ids_def toasts_showToast new_toast_def)

lemma ids_clickClose [simp]: "ids (clickClose n w) = ids w"
  by (simp add: ids_def)

lemma ids_fire:
  "ids (fire tm w) = (case snd tm of Cleanup i \<Rightarrow> filter (\<lambda>j. j \<noteq> i) (ids w) | _ \<Rightarrow> ids w)"
  by (simp add: ids_def toasts_fire filter_map comp_def if_distrib
           split: callback.splits cong: if_cong)

lemma ids_fire_subseq: "subseq (ids (fire tm w)) (ids w)"
  by (simp add: ids_fire split: callback.splits)

lemma ids_advance_subseq: "subseq (ids (advance t w)) (ids w)"
proof (induction t w rule: advance.induct)
  case (1 t w)
  show ?case
  proof (cases "next_due t (timers w)")
    case None
    then show ?thesis by (simp add: advance_idle ids_def)
  next
    case (Some tm)
    have "subseq (ids (advance t (fire tm w))) (ids (fire tm w))"
      using "1" Some by simp
    also have "subseq \<dots> (ids w)" by (rule ids_fire_subseq)
    finally show ?thesis using Some by (simp add: advance_fire)
  qed
qed

lemma subseq_distinct: "subseq xs ys \<Longrightarrow> distinct ys \<Longrightarrow> distinct xs"
proof (induction rule: list_emb.induct)
  case (list_emb_Cons xs ys y)
  then show ?case by simp
next
  case (list_emb_Cons2 x y xs ys)
  then show ?case using list_emb_set [of "(=)" xs ys x] by auto
qed simp

lemma subseq_member: "subseq xs ys \<Longrightarrow> x \<in> set xs \<Longrightarrow> x \<in> set ys"
  using list_emb_set [of "(=)" xs ys x] by auto

section \<open>Timers and what they can do\<close>

text \<open>
  The state changes that the callbacks and \<open>hideToast\<close> make to components only
  clear auto-close timers; every other pending timer stays. So the records with id
  \<open>i\<close> are all still held at time \<open>t\<close> when the state is \<open>undisturbed i t\<close>.
\<close>


lemma quiet_leaving: "quiet (\<lambda>c'. if inst c' = n then c'\<lparr>isLeaving := True\<rparr> else c')"
  by (simp add: quiet_def autoClose_armed_def)

lemma quiet_invisible: "quiet (\<lambda>c. if inst c = n then c\<lparr>isVisible := False\<rparr> else c)"
  by (simp add: quiet_def autoClose_armed_def)

lemma quiet_receive: "quiet (\<lambda>c. if key c = i then receive_visible False c else c)"
  by (simp add: quiet_def autoClose_armed_def receive_visible_def)

lemma rerender_quiet:
  "f c = c \<or> \<not> autoClose_armed (f c) \<Longrightarrow>
   rerender t c (f c) ts = ts \<or> rerender t c (f c) ts = autoClose_cleanup c ts"
  by (auto simp: rerender_def autoClose_effect_def)

lemma fold_rerender_set:
  "quiet f \<Longrightarrow> set (fold (\<lambda>c. rerender t c (f c)) cs ts) \<subseteq> set ts"
proof (induction cs arbitrary: ts)
  case Nil
  then show ?case by simp
next
  case (Cons c cs)
  have "set (rerender t c (f c) ts) \<subseteq> set ts"
    using rerender_quiet [of f c t ts] Cons.prems
    by (auto simp: quiet_def autoClose_cleanup_def)
  with Cons.IH [OF Cons.prems, of "rerender t c (f c) ts"] show ?case by auto
qed

lemma fold_rerender_keep:
  assumes "quiet f" and "\<forall>tm. P tm \<longrightarrow> (\<forall>n. snd tm \<noteq> AutoClose n)"
  shows "filter P (fold (\<lambda>c. rerender t c (f c)) cs ts) = filter P ts"
proof (induction cs arbitrary: ts)
  case Nil
  then show ?case by simp
next
  case (Cons c cs)
  have "filter P (autoClose_cleanup c ts) = filter P ts"
    using assms(2) by (auto simp: autoClose_cleanup_def intro: filter_cong)
  then have "filter P (rerender t c (f c) ts) = filter P ts"
    using rerender_quiet [of f c t ts] assms(1) by (auto simp: quiet_def)
  with Cons.IH [of "rerender t c (f c) ts"] show ?case by simp
qed

lemma fold_cleanup_set: "set (fold autoClose_cleanup cs ts) \<subseteq> set ts"
proof (induction cs arbitrary: ts)
  case Nil
  then show ?case by simp
next
  case (Cons c cs)
  from Cons.IH [of "autoClose_cleanup c ts"] show ?case
    by (auto simp: autoClose_cleanup_def)
qed

lemma fold_cleanup_keep:
  assumes "\<forall>tm. P tm \<longrightarrow> (\<forall>n. snd tm \<noteq> AutoClose n)"
  shows "filter P (fold autoClose_cleanup cs ts) = filter P ts"
proof (induction cs arbitrary: ts)
  case Nil
  then show ?case by simp
next
  case (Cons c cs)
  have "filter P (autoClose_cleanup c ts) = filter P ts"
    using assms by (auto simp: autoClose_cleanup_def intro: filter_cong)
  with Cons.IH [of "autoClose_cleanup c ts"] show ?case by simp
qed

lemma timers_update_mounted_set:
  "quiet f \<Longrightarrow> set (timers (update_mounted f w)) \<subseteq> set (timers w)"
  by (simp add: update_mounted_def fold_rerender_set)

lemma timers_update_mounted_keep:
  "quiet f \<Longrightarrow> \<forall>tm. P tm \<longrightarrow> (\<forall>n. snd tm \<noteq> AutoClose n) \<Longrightarrow>
   filter P (timers (update_mounted f w)) = filter P (timers w)"
  by (simp add: update_mounted_def fold_rerender_keep)

lemma timers_hideToast:
  "timers (hideToast i w) =
     timers (update_mounted (\<lambda>c. if key c = i then receive_visible False c else c) w)
       @ [(now w + 500, Cleanup i)]"
  by (simp add: hideToast_def Let_def update_mounted_def)

lemma mounted_hideToast:
  "mounted (hideToast i w) = map (\<lambda>c. if key c = i then receive_visible False c else c) (mounted w)"
  by (simp add: hideToast_def Let_def)

lemma timers_handleClose:
  "timers (handleClose c w) =
     timers (update_mounted (\<lambda>c'. if inst c' = inst c then c'\<lparr>isLeaving := True\<rparr> else c') w)
       @ [(now w + 300, CloseAnimationEnd (inst c) (key c))]"
  by (simp add: handleClose_def Let_def)

lemma mounted_handleClose:
  "mounted (handleClose c w) = map (\<lambda>c'. if inst c' = inst c then c'\<lparr>isLeaving := True\<rparr> else c') (mounted w)"
  by (simp add: handleClose_def Let_def)

lemma undisturbed_alt:
  "undisturbed i t w \<longleftrightarrow>
     (\<forall>tm \<in> set (timers w).
        case snd tm of
          Cleanup j \<Rightarrow> j = i \<longrightarrow> t < fst tm
        | CloseAnimationEnd n j \<Rightarrow> j = i \<longrightarrow> t < max (fst tm) (now w) + 500
        | AutoClose n \<Rightarrow> (n, i) \<in> comp_keys w \<longrightarrow> t < max (fst tm) (now w) + 800)"
  unfolding undisturbed_def comp_keys_def
  by (intro ball_cong refl) (auto split: callback.splits)

lemma undisturbed_mono:
  assumes "undisturbed i t w"
    and "set (timers w') \<subseteq> set (timers w)" and "comp_keys w' \<subseteq> comp_keys w" and "now w \<le> now w'"
  shows "undisturbed i t w'"
  using assms unfolding undisturbed_alt
  by (auto split: callback.splits simp: subset_iff max_def; fastforce)

lemma comp_keys_update_mounted: "quiet f \<Longrightarrow> comp_keys (update_mounted f w) = comp_keys w"
  by (auto simp: comp_keys_def quiet_def image_iff; metis)

lemma undisturbed_update_mounted:
  "quiet f \<Longrightarrow> undisturbed i t w \<Longrightarrow> undisturbed i t (update_mounted f w)"
proof -
  assume q: "quiet f" and u: "undisturbed i t w"
  show ?thesis
    using u by (rule undisturbed_mono)
      (simp_all add: timers_update_mounted_set [OF q] comp_keys_update_mounted [OF q])
qed

lemma undisturbed_add:
  assumes "undisturbed i t w"
    and "case snd tm of
          Cleanup j \<Rightarrow> j = i \<longrightarrow> t < fst tm
        | CloseAnimationEnd n j \<Rightarrow> j = i \<longrightarrow> t < max (fst tm) (now w) + 500
        | AutoClose n \<Rightarrow> (n, i) \<in> comp_keys w \<longrightarrow> t < max (fst tm) (now w) + 800"
  shows "undisturbed i t (w\<lparr>timers := timers w @ [tm]\<rparr>)"
  using assms unfolding undisturbed_alt by (auto simp: comp_keys_def split: callback.splits)

lemma undisturbed_hideToast:
  assumes "undisturbed i t w" and "j = i \<longrightarrow> t < now w + 500"
  shows "undisturbed i t (hideToast j w)"
proof -
  let ?f = "\<lambda>c. if key c = j then receive_visible False c else c"
  let ?w1 = "w\<lparr>toasts := map (\<lambda>toast. if id_toast toast = j then toast\<lparr>visible := False\<rparr> else toast)
                             (toasts w)\<rparr>"
  have "undisturbed i t ?w1"
    using assms(1) by (rule undisturbed_mono) (simp_all add: comp_keys_def)
  then have "undisturbed i t (update_mounted ?f ?w1)"
    by (rule undisturbed_update_mounted [OF quiet_receive])
  then have "undisturbed i t ((update_mounted ?f ?w1)\<lparr>timers := timers (update_mounted ?f ?w1) @ [(now w + 500, Cleanup j)]\<rparr>)"
    by (rule undisturbed_add) (simp add: assms(2))
  then show ?thesis by (simp add: hideToast_def Let_def)
qed

lemma undisturbed_handleClose:
  assumes "undisturbed i t w" and "key c = i \<longrightarrow> t < now w + 800"
  shows "undisturbed i t (handleClose c w)"
proof -
  let ?f = "\<lambda>c'. if inst c' = inst c then c'\<lparr>isLeaving := True\<rparr> else c'"
  have "undisturbed i t (update_mounted ?f w)"
    using assms(1) by (rule undisturbed_update_mounted [OF quiet_leaving])
  then have "undisturbed i t ((update_mounted ?f w)\<lparr>timers := timers (update_mounted ?f w) @ [(now w + 300, CloseAnimationEnd (inst c) (key c))]\<rparr>)"
    by (rule undisturbed_add) (use assms(2) in \<open>auto simp: max_def\<close>)
  then show ?thesis by (simp add: handleClose_def Let_def)
qed

lemma undisturbed_cleanup: "undisturbed i t w \<Longrightarrow> undisturbed i t (cleanup j w)"
  by (erule undisturbed_mono) (auto simp: cleanup_def comp_keys_def dest: subsetD [OF fold_cleanup_set])

lemma find_inst: "find (\<lambda>c. inst c = n) cs = Some c \<Longrightarrow> c \<in> set cs \<and> inst c = n"
  by (induction cs) (auto split: if_splits)

lemma undisturbed_fire:
  assumes u: "undisturbed i t w" and tm: "tm \<in> set (timers w)"
  shows "undisturbed i t (fire tm w)"
proof -
  let ?w0 = "w\<lparr>timers := remove1 tm (timers w), now := max (now w) (fst tm)\<rparr>"
  have u0: "undisturbed i t ?w0"
    using u by (rule undisturbed_mono) (auto simp: comp_keys_def dest: subsetD [OF set_remove1_subset])
  obtain d cb where dcb: "tm = (d, cb)" by (cases tm)
  show ?thesis
  proof (cases cb)
    case (AutoClose n)
    show ?thesis
    proof (cases "find (\<lambda>c. inst c = n) (mounted w)")
      case None
      with u0 dcb AutoClose show ?thesis by (simp add: fire_def autoClose_def)
    next
      case (Some c)
      from find_inst [OF Some] have c: "c \<in> set (mounted w)" "inst c = n" by simp_all
      have "key c = i \<longrightarrow> t < max d (now w) + 800"
        using u tm c dcb AutoClose unfolding undisturbed_def by fastforce
      then have "key c = i \<longrightarrow> t < now ?w0 + 800"
        using dcb by (simp add: max.commute)
      from undisturbed_handleClose [OF u0 this] Some dcb AutoClose show ?thesis
        by (simp add: fire_def autoClose_def)
    qed
  next
    case (CloseAnimationEnd n j)
    let ?f = "\<lambda>c. if inst c = n then c\<lparr>isVisible := False\<rparr> else c"
    have "j = i \<longrightarrow> t < max d (now w) + 500"
      using u tm dcb CloseAnimationEnd unfolding undisturbed_def by fastforce
    then have "j = i \<longrightarrow> t < now (update_mounted ?f ?w0) + 500"
      using dcb by (simp add: max.commute)
    from undisturbed_hideToast [OF undisturbed_update_mounted [OF quiet_invisible u0] this]
    show ?thesis using dcb CloseAnimationEnd by (simp add: fire_def closeAnimationEnd_def)
  next
    case (Cleanup j)
    with undisturbed_cleanup [OF u0, of j] dcb show ?thesis by (simp add: fire_def)
  qed
qed

lemma undisturbed_fire_keeps:
  assumes u: "undisturbed i t w" and tm: "tm \<in> set (timers w)" and le: "fst tm \<le> t"
  shows "i \<in> set (ids (fire tm w)) \<longleftrightarrow> i \<in> set (ids w)"
proof -
  have "snd tm \<noteq> Cleanup i"
    using u tm le unfolding undisturbed_def by fastforce
  then show ?thesis by (auto simp: ids_fire split: callback.splits)
qed

lemma undisturbed_advance:
  "undisturbed i t w \<Longrightarrow> i \<in> set (ids (advance t w)) \<longleftrightarrow> i \<in> set (ids w)"
proof (induction t w rule: advance.induct)
  case (1 t w)
  show ?case
  proof (cases "next_due t (timers w)")
    case None
    then show ?thesis by (simp add: advance_idle ids_def)
  next
    case (Some tm)
    from next_due_in [OF Some] have tm: "tm \<in> set (timers w)" "fst tm \<le> t" by simp_all
    have "i \<in> set (ids (advance t (fire tm w))) \<longleftrightarrow> i \<in> set (ids (fire tm w))"
      using "1.IH" [OF Some undisturbed_fire [OF "1.prems" tm(1)]] .
    also have "\<dots> \<longleftrightarrow> i \<in> set (ids w)"
      using undisturbed_fire_keeps [OF "1.prems" tm] .
    finally show ?thesis using Some by (simp add: advance_fire)
  qed
qed

subsection \<open>A pending clean-up runs\<close>

text \<open>A clean-up of \<open>i\<close> that is due by \<open>t\<close> has run when time has passed until \<open>t\<close>.\<close>

lemma earliest_None: "earliest ts = None \<longleftrightarrow> ts = []"
  by (induction ts) (auto split: option.splits)

lemma next_due_None: "next_due t ts = None \<Longrightarrow> tm \<in> set ts \<Longrightarrow> t < fst tm"
  by (auto simp: next_due_def earliest_None filter_empty_conv)

lemma timers_fire_keep:
  assumes "x \<in> set (timers w)" and "x \<noteq> tm" and "\<forall>n. snd x \<noteq> AutoClose n"
  shows "x \<in> set (timers (fire tm w))"
proof -
  let ?w0 = "w\<lparr>timers := remove1 tm (timers w), now := max (now w) (fst tm)\<rparr>"
  let ?P = "\<lambda>y. y = x"
  have P: "\<forall>tm. ?P tm \<longrightarrow> (\<forall>n. snd tm \<noteq> AutoClose n)" using assms(3) by simp
  have x0: "x \<in> set (timers ?w0)" using assms by simp
  have um: "x \<in> set (timers (update_mounted f v))" if "quiet f" "x \<in> set (timers v)" for f and v :: "'a world"
  proof -
    have "filter ?P (timers (update_mounted f v)) = filter ?P (timers v)"
      using timers_update_mounted_keep [OF that(1) P] .
    then have "set (filter ?P (timers (update_mounted f v))) = set (filter ?P (timers v))" by simp
    with that(2) show ?thesis by auto
  qed
  obtain d cb where dcb: "tm = (d, cb)" by (cases tm)
  show ?thesis
  proof (cases cb)
    case (AutoClose n)
    then show ?thesis using dcb x0 um [OF quiet_leaving, of ?w0]
      by (auto simp: fire_def Let_def autoClose_def timers_handleClose split: option.splits)
  next
    case (CloseAnimationEnd n j)
    then show ?thesis using dcb um [OF quiet_receive um [OF quiet_invisible x0]]
      by (simp add: fire_def Let_def closeAnimationEnd_def timers_hideToast)
  next
    case (Cleanup j)
    have "filter ?P (timers (cleanup j ?w0)) = filter ?P (timers ?w0)"
      using fold_cleanup_keep [OF P] by (simp add: cleanup_def)
    then have "set (filter ?P (timers (cleanup j ?w0))) = set (filter ?P (timers ?w0))" by simp
    with x0 have "x \<in> set (timers (cleanup j ?w0))" by auto
    then show ?thesis using dcb Cleanup by (simp add: fire_def Let_def)
  qed
qed

lemma cleanup_runs:
  "(d, Cleanup i) \<in> set (timers w) \<Longrightarrow> d \<le> t \<Longrightarrow> i \<notin> set (ids (advance t w))"
proof (induction t w rule: advance.induct)
  case (1 t w)
  show ?case
  proof (cases "next_due t (timers w)")
    case None
    from next_due_None [OF None "1.prems"(1)] "1.prems"(2) show ?thesis by simp
  next
    case (Some tm)
    show ?thesis
    proof (cases "tm = (d, Cleanup i)")
      case True
      then have "i \<notin> set (ids (fire tm w))" by (simp add: ids_fire)
      then have "i \<notin> set (ids (advance t (fire tm w)))"
        using subseq_member [OF ids_advance_subseq] by blast
      then show ?thesis using Some by (simp add: advance_fire)
    next
      case False
      have "(d, Cleanup i) \<in> set (timers (fire tm w))"
        using timers_fire_keep [OF "1.prems"(1)] False by simp
      from "1.IH" [OF Some this "1.prems"(2)] show ?thesis using Some by (simp add: advance_fire)
    qed
  qed
qed

subsection \<open>Visible records and pending removals\<close>

lemma visible_ids_hideToast: "visible_ids (hideToast i w) = filter (\<lambda>j. j \<noteq> i) (visible_ids w)"
  by (simp add: visible_ids_def toasts_hideToast filter_map comp_def if_distrib cong: if_cong)
     (rule arg_cong [where f = "map id_toast"], rule filter_cong, auto)

lemma visible_ids_fire: "set (visible_ids (fire tm w)) \<subseteq> set (visible_ids w)"
  by (cases "snd tm") (auto simp: visible_ids_def toasts_fire)

lemma visible_ids_advance: "set (visible_ids (advance t w)) \<subseteq> set (visible_ids w)"
proof (induction t w rule: advance.induct)
  case (1 t w)
  show ?case
  proof (cases "next_due t (timers w)")
    case None
    then show ?thesis by (simp add: advance_idle visible_ids_def)
  next
    case (Some tm)
    with "1" [OF Some] visible_ids_fire [of tm w] show ?thesis by (auto simp: advance_fire)
  qed
qed

lemma removals_hideToast:
  "removals i (hideToast j w) = removals i w @ (if j = i then [now w + 500] else [])"
proof -
  let ?P = "\<lambda>tm. snd tm = Cleanup i"
  have "filter ?P (timers (update_mounted (\<lambda>c. if key c = j then receive_visible False c else c) w))
        = filter ?P (timers w)"
    by (rule timers_update_mounted_keep [OF quiet_receive]) simp
  then show ?thesis by (simp add: removals_def timers_hideToast)
qed

lemma removals_member: "d \<in> set (removals i w) \<longleftrightarrow> (d, Cleanup i) \<in> set (timers w)"
  by (force simp: removals_def)

lemma undisturbed_soon:
  assumes "\<forall>d \<in> set (removals i w). t < d" and "t < now w + 500"
  shows "undisturbed i t w"
  unfolding undisturbed_def
proof
  fix tm assume tm: "tm \<in> set (timers w)"
  obtain d cb where dcb: "tm = (d, cb)" by (cases tm)
  show "case snd tm of
          Cleanup j \<Rightarrow> j = i \<longrightarrow> t < fst tm
        | CloseAnimationEnd n j \<Rightarrow> j = i \<longrightarrow> t < max (fst tm) (now w) + 500
        | AutoClose n \<Rightarrow>
            (\<forall>c \<in> set (mounted w). inst c = n \<and> key c = i \<longrightarrow> t < max (fst tm) (now w) + 800)"
    using assms tm dcb by (cases cb) (auto simp: removals_member)
qed

lemma hideToast_closing_same:
  assumes "i \<notin> set (visible_ids w)"
  shows "toasts (hideToast i w) = toasts w"
proof -
  have "\<forall>toast \<in> set (toasts w). id_toast toast = i \<longrightarrow> \<not> visible toast"
    using assms by (auto simp: visible_ids_def)
  then show ?thesis by (simp add: toasts_hideToast map_idI)
qed

subsection \<open>One toast, left alone\<close>

text \<open>
  The states a provider goes through after one \<open>showToast\<close> and no other call:
  the auto-close timer, the end of the exit animation 300 ms later, the clean-up 500 ms
  after that.
\<close>

lemma next_due_single: "next_due t [tm] = (if fst tm \<le> t then Some tm else None)"
  by (simp add: next_due_def)

lemma or_number_nonzero: "or_number d 5000 \<noteq> 0"
  by (simp add: or_number_def split: option.splits)

lemma timers_showToast:
  "timers (snd (showToast tok options w)) =
     timers w @ [(now w + setTimeout_delay (or_number (duration options) 5000), AutoClose (nextInst w))]"
  by (simp add: showToast_def Let_def Toast_mount_def new_toast_def
        Toast_duration_def autoClose_effect_def autoClose_armed_def or_number_nonzero)

lemma now_showToast [simp]: "now (snd (showToast tok options w)) = now w"
  by (simp add: showToast_def Let_def)

lemma removals_showToast [simp]: "removals i (snd (showToast tok options w)) = removals i w"
  by (simp add: removals_def timers_showToast)

lemma visible_ids_showToast [simp]:
  "visible_ids (snd (showToast tok options w)) = visible_ids w @ [tok]"
  by (simp add: visible_ids_def toasts_showToast new_toast_def)

lemma stage1:
  "snd (showToast tok options (empty_world t0 n)) =
     \<lparr>toasts = [new_toast tok options],
      mounted = [\<lparr>inst = n, key = tok, duration_prop = or_number (duration options) 5000,
                  visible_prop = True, isVisible = True, isLeaving = False\<rparr>],
      timers = [(t0 + setTimeout_delay (or_number (duration options) 5000), AutoClose n)],
      now = t0, nextInst = n + 1\<rparr>"
  by (simp add: showToast_def Let_def empty_world_def Toast_mount_def new_toast_def
        Toast_duration_def autoClose_effect_def autoClose_armed_def or_number_nonzero)

lemma stage2:
  "fire (T, AutoClose n)
     \<lparr>toasts = ts,
      mounted = [\<lparr>inst = n, key = tok, duration_prop = D,
                  visible_prop = True, isVisible = True, isLeaving = False\<rparr>],
      timers = [(T, AutoClose n)],
      now = t0, nextInst = m\<rparr> =
     \<lparr>toasts = ts,
      mounted = [\<lparr>inst = n, key = tok, duration_prop = D,
                  visible_prop = True, isVisible = True, isLeaving = True\<rparr>],
      timers = [(max t0 T + 300, CloseAnimationEnd n tok)],
      now = max t0 T, nextInst = m\<rparr>"
  by (simp add: fire_def autoClose_def handleClose_def update_mounted_def rerender_def deps_def
      autoClose_effect_def autoClose_armed_def autoClose_cleanup_def Let_def)

lemma stage3:
  "id_toast toast = tok \<Longrightarrow>
   fire (T, CloseAnimationEnd n tok)
     \<lparr>toasts = [toast],
      mounted = [\<lparr>inst = n, key = tok, duration_prop = D,
                  visible_prop = True, isVisible = True, isLeaving = True\<rparr>],
      timers = [(T, CloseAnimationEnd n tok)],
      now = t0, nextInst = m\<rparr> =
     \<lparr>toasts = [toast\<lparr>visible := False\<rparr>],
      mounted = [\<lparr>inst = n, key = tok, duration_prop = D,
                  visible_prop = False, isVisible = False, isLeaving = True\<rparr>],
      timers = [(max t0 T + 500, Cleanup tok)],
      now = max t0 T, nextInst = m\<rparr>"
  by (simp add: fire_def closeAnimationEnd_def hideToast_def update_mounted_def rerender_def
      deps_def autoClose_effect_def autoClose_armed_def autoClose_cleanup_def Let_def
      receive_visible_def)

lemma stage4:
  "id_toast toast = tok \<Longrightarrow>
   fire (T, Cleanup tok)
     \<lparr>toasts = [toast],
      mounted = [\<lparr>inst = n, key = tok, duration_prop = D,
                  visible_prop = False, isVisible = False, isLeaving = True\<rparr>],
      timers = [(T, Cleanup tok)],
      now = t0, nextInst = m\<rparr> =
     \<lparr>toasts = [], mounted = [], timers = [], now = max t0 T, nextInst = m\<rparr>"
  by (simp add: fire_def cleanup_def autoClose_cleanup_def Let_def)

lemma advance_no_timers: "timers w = [] \<Longrightarrow> toasts (advance t w) = toasts w"
  by (simp add: advance_idle next_due_def)

lemma lifecycle:
  fixes options :: "'a ToastOptions" and t0 n :: nat and tok :: string
  defines "T \<equiv> t0 + setTimeout_delay (or_number (duration options) 5000)"
  defines "w1 \<equiv> snd (showToast tok options (empty_world t0 n))"
  shows "toasts (advance t w1) =
           (if t < T + 300 then [new_toast tok options]
            else if t < T + 800 then [(new_toast tok options)\<lparr>visible := False\<rparr>]
            else [])"
proof -
  let ?D = "or_number (duration options) 5000"
  let ?r = "new_toast tok options"
  let ?c = "\<lambda>v l. \<lparr>inst = n, key = tok, duration_prop = ?D,
                  visible_prop = v, isVisible = v, isLeaving = l\<rparr>"
  let ?s1 = "\<lparr>toasts = [?r], mounted = [?c True False], timers = [(T, AutoClose n)],
      now = t0, nextInst = n + 1\<rparr>"
  let ?s2 = "\<lparr>toasts = [?r], mounted = [?c True True],
      timers = [(T + 300, CloseAnimationEnd n tok)], now = T, nextInst = n + 1\<rparr>"
  let ?s3 = "\<lparr>toasts = [?r\<lparr>visible := False\<rparr>], mounted = [?c False True],
      timers = [(T + 800, Cleanup tok)], now = T + 300, nextInst = n + 1\<rparr>"
  let ?s4 = "\<lparr>toasts = [], mounted = [], timers = [], now = T + 800, nextInst = n + 1\<rparr>
               :: 'a world"
  have r: "id_toast ?r = tok" by (simp add: new_toast_def)
  have w1: "w1 = ?s1" unfolding w1_def T_def by (rule stage1)
  have f1: "fire (T, AutoClose n) ?s1 = ?s2"
    by (simp add: stage2 T_def max_def)
  have f2: "fire (T + 300, CloseAnimationEnd n tok) ?s2 = ?s3"
    using stage3 [OF r, of "T + 300" n ?D T "n + 1"] by (simp add: max_def)
  have f3: "fire (T + 800, Cleanup tok) ?s3 = ?s4"
    using stage4 [of "?r\<lparr>visible := False\<rparr>" tok "T + 800" n ?D "T + 300" "n + 1"] r
    by (simp add: max_def)
  have a4: "toasts (advance t ?s4) = []"
    by (simp add: advance_no_timers)
  have a3: "toasts (advance t ?s3) = (if t < T + 800 then [?r\<lparr>visible := False\<rparr>] else [])"
  proof (cases "t < T + 800")
    case True
    then show ?thesis by (simp add: advance_idle next_due_single)
  next
    case False
    then have "advance t ?s3 = advance t ?s4"
      using advance_fire [of t ?s3 "(T + 800, Cleanup tok)"] f3 by (simp add: next_due_single)
    with a4 False show ?thesis by simp
  qed
  have a2: "toasts (advance t ?s2) =
      (if t < T + 300 then [?r] else if t < T + 800 then [?r\<lparr>visible := False\<rparr>] else [])"
  proof (cases "t < T + 300")
    case True
    then show ?thesis by (simp add: advance_idle next_due_single)
  next
    case False
    then have "advance t ?s2 = advance t ?s3"
      using advance_fire [of t ?s2 "(T + 300, CloseAnimationEnd n tok)"] f2
      by (simp add: next_due_single)
    with a3 False show ?thesis by simp
  qed
  have a1: "toasts (advance t ?s1) =
      (if t < T + 300 then [?r] else if t < T + 800 then [?r\<lparr>visible := False\<rparr>] else [])"
  proof (cases "t < T")
    case True
    then show ?thesis by (simp add: advance_idle next_due_single)
  next
    case False
    then have "advance t ?s1 = advance t ?s2"
      using advance_fire [of t ?s1 "(T, AutoClose n)"] f1 by (simp add: next_due_single)
    with a2 False show ?thesis by simp
  qed
  show ?thesis using a1 w1 by simp
qed

lemma toasts_hideToast_new:
  "toasts (hideToast tok (snd (showToast tok options (empty_world t0 n))))
     = [(new_toast tok options)\<lparr>visible := False\<rparr>]"
  by (simp add: toasts_hideToast toasts_showToast empty_world_def new_toast_def)

lemma one_toast_alt: "one_toast options = snd (showToast ''k3x9q2a'' options (empty_world 0 0))"
  by (simp add: one_toast_def ToastProvider_init_def empty_world_def)

subsection \<open>Two toasts\<close>

lemma two_toasts_ids: "map id_toast (toasts two_toasts) = [''a'', ''b'']"
  by (simp add: two_toasts_def toasts_showToast ToastProvider_init_def new_toast_def)

lemma two_toasts_alt:
  "two_toasts = snd (showToast ''b'' request_2000 (snd (showToast ''a'' request_plain (empty_world 0 0))))"
  by (simp add: two_toasts_def ToastProvider_init_def empty_world_def)

lemma ids_ToastProvider_init: "ids ToastProvider_init = []"
  by (simp add: ids_def ToastProvider_init_def)

lemma removals_ToastProvider_init: "removals i ToastProvider_init = []"
  by (simp add: removals_def ToastProvider_init_def)

lemma ids_empty_world [simp]: "ids (empty_world t0 n) = []"
  by (simp add: ids_def empty_world_def)

lemma visible_ids_empty_world [simp]: "visible_ids (empty_world t0 n) = []"
  by (simp add: visible_ids_def empty_world_def)

lemma removals_empty_world [simp]: "removals i (empty_world t0 n) = []"
  by (simp add: removals_def empty_world_def)

lemma now_empty_world [simp]: "now (empty_world t0 n) = t0"
  by (simp add: empty_world_def)

lemma timers_empty_world [simp]: "timers (empty_world t0 n) = []"
  by (simp add: empty_world_def)

lemma undisturbed_showToast:
  assumes "undisturbed i t w" and "t < now w + 800"
  shows "undisturbed i t (snd (showToast tok options w))"
  unfolding undisturbed_def
proof
  fix tm assume tm: "tm \<in> set (timers (snd (showToast tok options w)))"
  let ?w' = "snd (showToast tok options w)"
  obtain d cb where dcb: "tm = (d, cb)" by (cases tm)
  show "case snd tm of
          Cleanup j \<Rightarrow> j = i \<longrightarrow> t < fst tm
        | CloseAnimationEnd m j \<Rightarrow> j = i \<longrightarrow> t < max (fst tm) (now ?w') + 500
        | AutoClose m \<Rightarrow>
            (\<forall>c \<in> set (mounted ?w'). inst c = m \<and> key c = i \<longrightarrow> t < max (fst tm) (now ?w') + 800)"
  proof (cases cb)
    case (AutoClose m)
    then show ?thesis using assms(2) dcb by (simp add: max_def)
  next
    case (CloseAnimationEnd m j)
    then have "tm \<in> set (timers w)" using tm dcb by (simp add: timers_showToast)
    with assms(1) CloseAnimationEnd dcb show ?thesis unfolding undisturbed_def by fastforce
  next
    case (Cleanup j)
    then have "tm \<in> set (timers w)" using tm dcb by (simp add: timers_showToast)
    with assms(1) Cleanup dcb show ?thesis unfolding undisturbed_def by fastforce
  qed
qed

lemma undisturbed_empty_world [simp]: "undisturbed i t (empty_world t0 n)"
  by (simp add: undisturbed_def)

lemma subseq_pair:
  assumes "subseq xs [a, b]" and "a \<notin> set xs" and "b \<in> set xs"
  shows "xs = [b]"
  using assms by (cases xs) (auto simp: subseq_Cons2_iff split: if_splits)

lemma dismiss_first_of_two:
  assumes "a \<noteq> b"
  shows "ids (advance (t0 + 500)
                (hideToast a (exec [ShowToast a oa, ShowToast b ob] (empty_world t0 n)))) = [b]"
proof -
  let ?w2 = "exec [ShowToast a oa, ShowToast b ob] (empty_world t0 n)"
  let ?w3 = "hideToast a ?w2"
  have "undisturbed b (t0 + 500) ?w2"
    by (simp add: undisturbed_showToast)
  then have "undisturbed b (t0 + 500) ?w3"
    using assms by (intro undisturbed_hideToast) simp_all
  from undisturbed_advance [OF this] have b: "b \<in> set (ids (advance (t0 + 500) ?w3))"
    by simp
  have "(t0 + 500, Cleanup a) \<in> set (timers ?w3)"
    by (simp add: timers_hideToast)
  from cleanup_runs [OF this] have a: "a \<notin> set (ids (advance (t0 + 500) ?w3))"
    by simp
  have "subseq (ids (advance (t0 + 500) ?w3)) [a, b]"
    using ids_advance_subseq [of "t0 + 500" ?w3] by simp
  from subseq_pair [OF this a b] show ?thesis .
qed

lemma two_toasts_dismiss_first: "ids (advance 500 (hideToast ''a'' two_toasts)) = [''b'']"
  using dismiss_first_of_two [of "''a''" "''b''" 0 request_plain request_2000 0]
  by (simp add: two_toasts_def ToastProvider_init_def empty_world_def)

subsection \<open>The states a run reaches\<close>

text \<open>What each step does to the pending removals and to the visible ids.\<close>

lemma removals_update_mounted: "quiet f \<Longrightarrow> removals i (update_mounted f w) = removals i w"
  unfolding removals_def by (subst timers_update_mounted_keep) simp_all

lemma removals_handleClose [simp]: "removals i (handleClose c w) = removals i w"
  by (simp add: removals_def timers_handleClose)
     (simp add: removals_update_mounted [OF quiet_leaving, unfolded removals_def])

lemma removals_clickClose [simp]: "removals i (clickClose n w) = removals i w"
  by (simp add: clickClose_def split: option.splits)

lemma removals_autoClose [simp]: "removals i (autoClose n w) = removals i w"
  by (simp add: autoClose_def split: option.splits)

lemma removals_closeAnimationEnd:
  "removals i (closeAnimationEnd n j w) = removals i w @ (if j = i then [now w + 500] else [])"
  by (simp add: closeAnimationEnd_def removals_hideToast removals_update_mounted [OF quiet_invisible])

lemma removals_cleanup [simp]: "removals i (cleanup j w) = removals i w"
  unfolding removals_def cleanup_def by (simp add: fold_cleanup_keep)

lemma filter_remove1_other: "\<not> P x \<Longrightarrow> filter P (remove1 x xs) = filter P xs"
  by (induction xs) auto

lemma removals_fire:
  "snd tm \<noteq> Cleanup i \<Longrightarrow>
   removals i (fire tm w) =
     removals i w @ (case snd tm of
                       CloseAnimationEnd n j \<Rightarrow> if j = i then [max (now w) (fst tm) + 500] else []
                     | _ \<Rightarrow> [])"
proof -
  assume a: "snd tm \<noteq> Cleanup i"
  let ?w0 = "w\<lparr>timers := remove1 tm (timers w), now := max (now w) (fst tm)\<rparr>"
  have r0: "removals i ?w0 = removals i w"
    using a by (simp add: removals_def filter_remove1_other)
  show ?thesis
    using r0 by (cases "snd tm") (simp_all add: fire_def Let_def removals_closeAnimationEnd)
qed

lemma visible_ids_cleanup: "visible_ids (cleanup j w) = filter (\<lambda>i. i \<noteq> j) (visible_ids w)"
  by (simp add: visible_ids_def toasts_cleanup filter_map comp_def conj_commute)

lemma visible_ids_update_mounted [simp]: "visible_ids (update_mounted f w) = visible_ids w"
  by (simp add: visible_ids_def)

lemma visible_ids_handleClose [simp]: "visible_ids (handleClose c w) = visible_ids w"
  by (simp add: visible_ids_def)

lemma visible_ids_clickClose [simp]: "visible_ids (clickClose n w) = visible_ids w"
  by (simp add: visible_ids_def)

lemma visible_ids_cong: "toasts w = toasts w' \<Longrightarrow> visible_ids w = visible_ids w'"
  by (simp add: visible_ids_def)

lemma ids_cong: "toasts w = toasts w' \<Longrightarrow> ids w = ids w'"
  by (simp add: ids_def)

lemma visible_ids_fire_eq:
  "visible_ids (fire tm w) =
     (case snd tm of
        AutoClose n \<Rightarrow> visible_ids w
      | CloseAnimationEnd n j \<Rightarrow> filter (\<lambda>i. i \<noteq> j) (visible_ids w)
      | Cleanup j \<Rightarrow> filter (\<lambda>i. i \<noteq> j) (visible_ids w))"
proof (cases "snd tm")
  case (AutoClose n)
  then have "toasts (fire tm w) = toasts w" by (simp add: toasts_fire)
  from visible_ids_cong [OF this] AutoClose show ?thesis by simp
next
  case (CloseAnimationEnd n j)
  then have "toasts (fire tm w) = toasts (hideToast j w)"
    by (simp add: toasts_fire toasts_hideToast)
  from visible_ids_cong [OF this] CloseAnimationEnd show ?thesis
    by (simp add: visible_ids_hideToast)
next
  case (Cleanup j)
  then have "toasts (fire tm w) = toasts (cleanup j w)"
    by (simp add: toasts_fire toasts_cleanup)
  from visible_ids_cong [OF this] Cleanup show ?thesis
    by (simp add: visible_ids_cleanup)
qed

subsection \<open>A visible record has no removal pending\<close>

lemma nrv_showToast:
  "no_removal_while_visible w \<Longrightarrow> removals tok w = [] \<Longrightarrow>
   no_removal_while_visible (snd (showToast tok options w))"
  by (auto simp: no_removal_while_visible_def)

lemma nrv_hideToast: "no_removal_while_visible w \<Longrightarrow> no_removal_while_visible (hideToast j w)"
  by (auto simp: no_removal_while_visible_def visible_ids_hideToast removals_hideToast)

lemma nrv_clickClose: "no_removal_while_visible w \<Longrightarrow> no_removal_while_visible (clickClose n w)"
  by (auto simp: no_removal_while_visible_def)

lemma nrv_fire: "no_removal_while_visible w \<Longrightarrow> no_removal_while_visible (fire tm w)"
  unfolding no_removal_while_visible_def
proof
  fix i assume n: "\<forall>i \<in> set (visible_ids w). removals i w = []"
    and i: "i \<in> set (visible_ids (fire tm w))"
  have iw: "i \<in> set (visible_ids w)"
    using i visible_ids_fire [of tm w] by auto
  have ne: "snd tm \<noteq> Cleanup i" "\<forall>n. snd tm \<noteq> CloseAnimationEnd n i"
    using i by (auto simp: visible_ids_fire_eq)
  show "removals i (fire tm w) = []"
    using n iw ne by (simp add: removals_fire split: callback.splits)
qed

lemma nrv_advance: "no_removal_while_visible w \<Longrightarrow> no_removal_while_visible (advance t w)"
proof (induction t w rule: advance.induct)
  case (1 t w)
  show ?case
  proof (cases "next_due t (timers w)")
    case None
    with "1.prems" show ?thesis
      by (simp add: advance_idle no_removal_while_visible_def visible_ids_def removals_def)
  next
    case (Some tm)
    from "1.IH" [OF Some nrv_fire [OF "1.prems"]] Some show ?thesis by (simp add: advance_fire)
  qed
qed

lemma nrv_exec:
  "no_removal_while_visible w \<Longrightarrow> new_tokens evs w \<Longrightarrow> no_removal_while_visible (exec evs w)"
proof (induction evs arbitrary: w)
  case Nil
  then show ?case by simp
next
  case (Cons e evs)
  then show ?case
    by (cases e) (auto intro: nrv_showToast nrv_hideToast nrv_clickClose nrv_advance)
qed

lemma nrv_init: "no_removal_while_visible ToastProvider_init"
  by (simp add: no_removal_while_visible_def visible_ids_def ToastProvider_init_def)

subsection \<open>A closing record has a removal pending\<close>

lemma chr_showToast: "closing_has_removal w \<Longrightarrow> closing_has_removal (snd (showToast tok options w))"
  by (auto simp: closing_has_removal_def)

lemma chr_hideToast: "closing_has_removal w \<Longrightarrow> closing_has_removal (hideToast j w)"
  by (auto simp: closing_has_removal_def visible_ids_hideToast removals_hideToast)

lemma chr_clickClose: "closing_has_removal w \<Longrightarrow> closing_has_removal (clickClose n w)"
  by (simp add: closing_has_removal_def clickClose_def ids_cong [of "handleClose _ _", OF toasts_handleClose]
        split: option.splits)

lemma chr_fire:
  assumes "closing_has_removal w"
  shows "closing_has_removal (fire tm w)"
  unfolding closing_has_removal_def
proof (intro ballI impI)
  fix i assume held: "i \<in> set (ids (fire tm w))" and nv: "i \<notin> set (visible_ids (fire tm w))"
  have hw: "i \<in> set (ids w)"
    using held subseq_member [OF ids_fire_subseq] by blast
  have ne: "snd tm \<noteq> Cleanup i"
    using held by (auto simp: ids_fire)
  show "\<exists>d \<in> set (removals i (fire tm w)). d \<le> now (fire tm w) + 500"
  proof (cases "\<exists>n. snd tm = CloseAnimationEnd n i")
    case True
    then show ?thesis using ne by (auto simp: removals_fire max.commute)
  next
    case False
    then have "i \<notin> set (visible_ids w)"
      using nv ne by (auto simp: visible_ids_fire_eq split: callback.splits)
    with assms hw obtain d where "d \<in> set (removals i w)" "d \<le> now w + 500"
      unfolding closing_has_removal_def by blast
    then show ?thesis using ne by (auto simp: removals_fire intro!: bexI [of _ d])
  qed
qed

lemma chr_advance: "closing_has_removal w \<Longrightarrow> closing_has_removal (advance t w)"
proof (induction t w rule: advance.induct)
  case (1 t w)
  show ?case
  proof (cases "next_due t (timers w)")
    case None
    have "closing_has_removal (w\<lparr>now := max (now w) t\<rparr>)"
      unfolding closing_has_removal_def
    proof (intro ballI impI)
      fix i assume "i \<in> set (ids (w\<lparr>now := max (now w) t\<rparr>))"
        and "i \<notin> set (visible_ids (w\<lparr>now := max (now w) t\<rparr>))"
      then have "i \<in> set (ids w)" "i \<notin> set (visible_ids w)"
        by (simp_all add: ids_def visible_ids_def)
      with "1.prems" obtain d where "d \<in> set (removals i w)" "d \<le> now w + 500"
        unfolding closing_has_removal_def by blast
      then show "\<exists>d \<in> set (removals i (w\<lparr>now := max (now w) t\<rparr>)).
                   d \<le> now (w\<lparr>now := max (now w) t\<rparr>) + 500"
        by (intro bexI [of _ d]) (simp_all add: removals_def)
    qed
    with None show ?thesis by (simp add: advance_idle)
  next
    case (Some tm)
    from "1.IH" [OF Some chr_fire [OF "1.prems"]] Some show ?thesis by (simp add: advance_fire)
  qed
qed

lemma chr_exec: "closing_has_removal w \<Longrightarrow> closing_has_removal (exec evs w)"
proof (induction evs arbitrary: w)
  case Nil
  then show ?case by simp
next
  case (Cons e evs)
  then show ?case
    by (cases e) (auto intro: chr_showToast chr_hideToast chr_clickClose chr_advance)
qed

lemma chr_init: "closing_has_removal ToastProvider_init"
  by (simp add: closing_has_removal_def ids_def ToastProvider_init_def)

subsection \<open>hideToast, from a state\<close>

text \<open>
  What \<open>hideToast\<close> and the time after it do, from a state described by its visible
  ids and its pending removals.
\<close>

lemma hideToast_closing_state:
  assumes "i \<in> set (ids w)" and "i \<notin> set (visible_ids w)"
    and "d \<in> set (removals i w)" and "\<forall>d' \<in> set (removals i w). d \<le> d'"
    and "d \<le> now w + 500"
  shows "toasts (hideToast i w) = toasts w \<and>
         removals i (hideToast i w) = removals i w @ [now w + 500] \<and>
         (\<forall>t < d. i \<in> set (ids (advance t (hideToast i w)))) \<and>
         (\<forall>t \<ge> d. i \<notin> set (ids (advance t (hideToast i w)))) \<and>
         (\<forall>t. i \<notin> set (visible_ids (advance t (hideToast i w))))"
proof -
  have same: "toasts (hideToast i w) = toasts w"
    using assms(2) by (rule hideToast_closing_same)
  have r: "removals i (hideToast i w) = removals i w @ [now w + 500]"
    by (simp add: removals_hideToast)
  have stays: "i \<in> set (ids (advance t (hideToast i w)))" if "t < d" for t
  proof -
    have "undisturbed i t w"
      using assms(4,5) that by (intro undisturbed_soon) auto
    then have "undisturbed i t (hideToast i w)"
      using that assms(5) by (intro undisturbed_hideToast) simp_all
    from undisturbed_advance [OF this] assms(1) show ?thesis by simp
  qed
  have goes: "i \<notin> set (ids (advance t (hideToast i w)))" if "d \<le> t" for t
  proof -
    have "d \<in> set (removals i (hideToast i w))"
      using assms(3) r by simp
    then have "(d, Cleanup i) \<in> set (timers (hideToast i w))"
      by (simp add: removals_member)
    from cleanup_runs [OF this that] show ?thesis .
  qed
  have never: "i \<notin> set (visible_ids (advance t (hideToast i w)))" for t
    using visible_ids_advance [of t "hideToast i w"] assms(2)
    by (auto simp: visible_ids_hideToast)
  show ?thesis using same r stays goes never by simp
qed

section \<open>Automatic dismissal in any state\<close>

subsection \<open>The timers and components after a callback\<close>










subsection \<open>A visible record stays visible\<close>




subsection \<open>The end of an exit animation runs\<close>






subsection \<open>An auto-close timer that nothing clears\<close>









subsection \<open>The records with one id\<close>








subsection \<open>Instance numbers and keys in the states a run reaches\<close>

lemma nextInst_update_mounted [simp]: "nextInst (update_mounted f w) = nextInst w"
  by (simp add: update_mounted_def)

lemma nextInst_hideToast [simp]: "nextInst (hideToast i w) = nextInst w"
  by (simp add: hideToast_def Let_def)

lemma nextInst_handleClose [simp]: "nextInst (handleClose c w) = nextInst w"
  by (simp add: handleClose_def Let_def)

lemma nextInst_clickClose [simp]: "nextInst (clickClose n w) = nextInst w"
  by (simp add: clickClose_def split: option.splits)


lemma nextInst_showToast [simp]: "nextInst (snd (showToast tok options w)) = nextInst w + 1"
  by (simp add: showToast_def Let_def)


lemma comp_keys_hideToast [simp]: "comp_keys (hideToast j w) = comp_keys w"
  using comp_keys_update_mounted [OF quiet_receive, of j w]
  by (simp add: comp_keys_def mounted_hideToast)

lemma comp_keys_handleClose [simp]: "comp_keys (handleClose c w) = comp_keys w"
  using comp_keys_update_mounted [OF quiet_leaving, of "inst c" w]
  by (simp add: comp_keys_def mounted_handleClose)

lemma comp_keys_clickClose [simp]: "comp_keys (clickClose n w) = comp_keys w"
  by (simp add: clickClose_def split: option.splits)




















subsection \<open>A record enqueued with an unused token\<close>

lemma setTimeout_delay_fits: "0 \<le> ms \<Longrightarrow> ms \<le> 2147483647 \<Longrightarrow> setTimeout_delay ms = nat ms"
  by (simp add: setTimeout_delay_def)

lemma token_unused_init: "token_unused tok ToastProvider_init"
  by (simp add: token_unused_def ids_def ToastProvider_init_def)


section \<open>The claims\<close>

subsection \<open>C10: the context hook\<close>

text \<open>
  Claim C10. With no \<^verbatim>\<open>ToastProvider\<close> in scope \<open>useToast\<close> throws an
  \<^verbatim>\<open>Error\<close> with the message \<^verbatim>\<open>useToast must be used within a ToastProvider\<close>; inside a
  provider it returns the provider's value, which holds \<open>showToast\<close> and \<open>hideToast\<close>,
  and does not throw.
\<close>

theorem useToast_outside_and_inside:
  "useToast ([] :: 'a ToastContextType list)
     = Inl (Error ''useToast must be used within a ToastProvider'') \<and>
   useToast ((ToastProvider_value :: 'a ToastContextType) # outer) = Inr ToastProvider_value \<and>
   ctx_showToast (ToastProvider_value :: 'a ToastContextType) = showToast \<and>
   ctx_hideToast (ToastProvider_value :: 'a ToastContextType) = hideToast"
  by (simp add: useToast_def useContext_def ToastProvider_value_def)

subsection \<open>C9: the frame of hideToast\<close>

text \<open>
  Claim C9. When \<open>hideToast i\<close> returns, the collection has the length it had, every
  record has the id, variant, title, description, duration and action it had, a record
  whose id is not \<open>i\<close> is the record it was, and a record whose id is \<open>i\<close> differs
  from the one it was in the visibility field at most.
\<close>

theorem hideToast_frame:
  "length (toasts (hideToast i w)) = length (toasts w) \<and>
   (\<forall>k < length (toasts w).
      id_toast (toasts (hideToast i w) ! k) = id_toast (toasts w ! k) \<and>
      variant (toasts (hideToast i w) ! k) = variant (toasts w ! k) \<and>
      title (toasts (hideToast i w) ! k) = title (toasts w ! k) \<and>
      description (toasts (hideToast i w) ! k) = description (toasts w ! k) \<and>
      duration (toasts (hideToast i w) ! k) = duration (toasts w ! k) \<and>
      action (toasts (hideToast i w) ! k) = action (toasts w ! k) \<and>
      (id_toast (toasts w ! k) \<noteq> i \<longrightarrow> toasts (hideToast i w) ! k = toasts w ! k) \<and>
      (id_toast (toasts w ! k) = i \<longrightarrow>
         toasts (hideToast i w) ! k = (toasts w ! k)\<lparr>visible := False\<rparr>))"
  by (simp add: toasts_hideToast)

theorem hideToast_frame_witness:
  "(0::nat) < length (toasts two_toasts) \<and> 1 < length (toasts two_toasts) \<and>
   id_toast (toasts two_toasts ! 0) = ''a'' \<and>
   id_toast (toasts two_toasts ! 1) \<noteq> ''a'' \<and>
   toasts (hideToast ''a'' two_toasts) ! 0 = (toasts two_toasts ! 0)\<lparr>visible := False\<rparr> \<and>
   toasts (hideToast ''a'' two_toasts) ! 1 = toasts two_toasts ! 1"
proof -
  have l: "length (toasts two_toasts) = 2"
    using arg_cong [OF two_toasts_ids, of length] by simp
  have a: "id_toast (toasts two_toasts ! 0) = ''a''"
    using arg_cong [OF two_toasts_ids, of "\<lambda>xs. xs ! 0"] l by (simp add: nth_map)
  have b: "id_toast (toasts two_toasts ! 1) = ''b''"
    using arg_cong [OF two_toasts_ids, of "\<lambda>xs. xs ! 1"] l by (simp add: nth_map)
  from hideToast_frame [of "''a''" two_toasts] l a b show ?thesis
    by simp
qed

subsection \<open>C1: hideToast of an id that is not held\<close>

text \<open>
  Claim C1. When no record has the id \<open>i\<close>, \<open>hideToast i\<close> leaves the collection
  as it is; the function is total, so nothing is thrown; no record with that id appears
  later either, and the clean-up it has scheduled finds nothing to remove.
\<close>

theorem hideToast_absent:
  assumes "i \<notin> set (ids w)"
  shows "toasts (hideToast i w) = toasts w \<and>
         (\<forall>t. i \<notin> set (ids (advance t (hideToast i w)))) \<and>
         toasts (cleanup i (hideToast i w)) = toasts w"
proof -
  have n: "\<forall>toast \<in> set (toasts w). id_toast toast \<noteq> i"
    using assms by (auto simp: ids_def)
  then have h: "toasts (hideToast i w) = toasts w"
    by (simp add: toasts_hideToast map_idI)
  have "i \<notin> set (ids (advance t (hideToast i w)))" for t
    using subseq_member [OF ids_advance_subseq, of i t "hideToast i w"] assms by auto
  moreover have "toasts (cleanup i (hideToast i w)) = toasts w"
    using n by (simp add: toasts_cleanup h)
  ultimately show ?thesis using h by simp
qed

theorem hideToast_absent_witness:
  "''zz'' \<notin> set (ids two_toasts) \<and>
   toasts (hideToast ''zz'' two_toasts) = toasts two_toasts \<and>
   ''zz'' \<notin> set (ids (advance 500 (hideToast ''zz'' two_toasts))) \<and>
   toasts (cleanup ''zz'' (hideToast ''zz'' two_toasts)) = toasts two_toasts"
proof -
  have h: "''zz'' \<notin> set (ids two_toasts)"
    by (simp add: ids_def two_toasts_ids)
  from hideToast_absent [OF h] h show ?thesis by simp
qed

subsection \<open>C2: showToast\<close>

text \<open>
  Claim C2. \<open>showToast\<close> returns the token as the identifier and appends one record
  at the end of the collection, which is otherwise as it was; the record is visible, has
  the token as its id and the title, description and action of the request, the variant
  of the request or \<open>info\<close> when there is none, and the duration of the request or 5000
  when there is none. A duration of 0 in the request is replaced by 5000 as well, so
  the duration field of the record is not the one of the request there.
\<close>

theorem showToast_appends:
  "fst (showToast token options w) = token \<and>
   toasts (snd (showToast token options w)) =
     toasts w @
       [\<lparr>variant = Some (case variant options of None \<Rightarrow> info | Some v \<Rightarrow> v),
         title = title options,
         description = description options,
         duration = Some (case duration options of
                            None \<Rightarrow> 5000
                          | Some d \<Rightarrow> if d = 0 then 5000 else d),
         action = action options,
         id_toast = token,
         visible = True\<rparr>] \<and>
   duration (last (toasts (snd (showToast token (options\<lparr>duration := Some 0\<rparr>) w)))) = Some 5000"
  by (simp add: showToast_def Let_def new_toast_def or_number_def or_variant_def)

subsection \<open>C5: a duration of 0\<close>

text \<open>
  Claim C5 says that a record made from a request with duration 0 is never scheduled for
  automatic dismissal. In the code \<^verbatim>\<open>options.duration || 5000\<close> gives the record the
  duration 5000, its component sets the auto-close timer when it mounts, \<open>hideToast\<close>
  runs 5300 ms after the call and the record is gone after 5800 ms.
\<close>

theorem showToast_zero_duration_auto_closes:
  "timers (snd (showToast token (options\<lparr>duration := Some 0\<rparr>) w))
     = timers w @ [(now w + 5000, AutoClose (nextInst w))] \<and>
   map duration (toasts (one_toast request_zero)) = [Some 5000] \<and>
   map visible (toasts (advance 5299 (one_toast request_zero))) = [True] \<and>
   map visible (toasts (advance 5300 (one_toast request_zero))) = [False] \<and>
   toasts (advance 5800 (one_toast request_zero)) = []"
proof -
  have D: "or_number (duration request_zero) 5000 = 5000" "setTimeout_delay 5000 = 5000"
    by (simp_all add: request_zero_def or_number_def setTimeout_delay_def)
  have "timers (snd (showToast token (options\<lparr>duration := Some 0\<rparr>) w))
     = timers w @ [(now w + 5000, AutoClose (nextInst w))]"
    by (simp add: timers_showToast or_number_def setTimeout_delay_def)
  moreover have "map duration (toasts (one_toast request_zero)) = [Some 5000]"
    using D by (simp add: one_toast_alt toasts_showToast empty_world_def new_toast_def)
  moreover have "map visible (toasts (advance 5299 (one_toast request_zero))) = [True]"
    using D by (simp add: one_toast_alt lifecycle new_toast_def)
  moreover have "map visible (toasts (advance 5300 (one_toast request_zero))) = [False]"
    using D by (simp add: one_toast_alt lifecycle)
  moreover have "toasts (advance 5800 (one_toast request_zero)) = []"
    using D by (simp add: one_toast_alt lifecycle)
  ultimately show ?thesis by simp
qed

subsection \<open>C4: identifiers are distinct when the tokens are\<close>

text \<open>
  Claim C4 says that the identifiers of the records held are pairwise distinct. The
  code takes the token as the identifier and compares it with nothing: two calls that
  draw the same token give two records with the same id.
\<close>

theorem showToast_same_token:
  "\<not> distinct (ids (exec [ShowToast ''a'' request_plain, ShowToast ''a'' request_2000]
                      ToastProvider_init))"
  by (simp add: ToastProvider_init_def ids_def toasts_showToast new_toast_def)

text \<open>
  Claim C4, amended. In a run where every \<open>showToast\<close> draws a token that no record
  held at that moment has as its id, the identifiers of the records held are pairwise
  distinct at every moment.
\<close>

theorem ids_distinct:
  "distinct (ids w) \<Longrightarrow> fresh_tokens evs w \<Longrightarrow> distinct (ids (exec evs w))"
proof (induction evs arbitrary: w)
  case Nil
  then show ?case by simp
next
  case (Cons e evs)
  then show ?case
    by (cases e) (auto intro: subseq_distinct [OF ids_advance_subseq])
qed

theorem ids_distinct_witness:
  "distinct (ids (ToastProvider_init :: unit world)) \<and> fresh_tokens demo_run ToastProvider_init \<and>
   distinct (ids (exec demo_run ToastProvider_init))"
proof -
  have d: "distinct (ids (ToastProvider_init :: unit world))"
    by (simp add: ids_ToastProvider_init)
  have f: "fresh_tokens demo_run ToastProvider_init"
    using two_toasts_dismiss_first
    by (simp add: demo_run_def two_toasts_def ids_ToastProvider_init)
  from ids_distinct [OF d f] d f show ?thesis by simp
qed

subsection \<open>C8: insertion order\<close>

text \<open>
  Claim C8. \<open>showToast\<close> puts the new id after the ids held, \<open>hideToast\<close> and a
  click leave the list of ids as it is, and the passing of time only takes ids out: what
  is left keeps its order. After \<open>showToast\<close> of A and then of B the ids are
  \<open>[a, b]\<close>; when \<open>hideToast a\<close> follows and 500 ms pass, they are \<open>[b]\<close>
  (A and B being two records, \<open>a\<close> and \<open>b\<close> differ).
\<close>

theorem insertion_order:
  assumes "a \<noteq> b"
  shows "(case e :: 'a event of
            ShowToast tok options \<Rightarrow> ids (apply_event e w) = ids w @ [tok]
          | HideToast i \<Rightarrow> ids (apply_event e w) = ids w
          | ClickClose m \<Rightarrow> ids (apply_event e w) = ids w
          | Advance t \<Rightarrow> subseq (ids (apply_event e w)) (ids w)) \<and>
         ids (exec [ShowToast a oa, ShowToast b ob] (empty_world t0 n :: 'a world)) = [a, b] \<and>
         ids (advance (t0 + 500)
                (hideToast a (exec [ShowToast a oa, ShowToast b ob] (empty_world t0 n)))) = [b]"
proof -
  have "case e of
            ShowToast tok options \<Rightarrow> ids (apply_event e w) = ids w @ [tok]
          | HideToast i \<Rightarrow> ids (apply_event e w) = ids w
          | ClickClose m \<Rightarrow> ids (apply_event e w) = ids w
          | Advance t \<Rightarrow> subseq (ids (apply_event e w)) (ids w)"
    by (cases e) (simp_all add: ids_advance_subseq)
  moreover have "ids (exec [ShowToast a oa, ShowToast b ob] (empty_world t0 n :: 'a world)) = [a, b]"
    by simp
  ultimately show ?thesis using dismiss_first_of_two [OF assms, of t0 oa ob n] by simp
qed

theorem insertion_order_witness:
  "''a'' \<noteq> ''b'' \<and> ids two_toasts = [''a'', ''b''] \<and>
   ids (advance 500 (hideToast ''a'' two_toasts)) = [''b'']"
proof -
  have h: "''a'' \<noteq> ''b''" by simp
  from insertion_order [OF h, of "Advance 0" two_toasts request_plain request_2000 0 0]
  show ?thesis by (simp add: two_toasts_def ToastProvider_init_def empty_world_def)
qed

subsection \<open>C3: hideToast of a visible record\<close>

text \<open>
  Claim C3 says that a visible record is removed exactly 500 ms after \<open>hideToast\<close>
  of its id. The clean-up of an earlier \<open>hideToast\<close> of the same id can still be
  pending when a new record draws that id: in the run below the record is visible at
  500 ms, \<open>hideToast\<close> is called then, and the record is gone at 800 ms.
\<close>

theorem hideToast_stale_removal:
  "''a'' \<in> set (visible_ids (exec stale_run ToastProvider_init)) \<and>
   now (exec stale_run ToastProvider_init) = 500 \<and>
   ''a'' \<in> set (ids (advance 799 (hideToast ''a'' (exec stale_run ToastProvider_init)))) \<and>
   ''a'' \<notin> set (ids (advance 800 (hideToast ''a'' (exec stale_run ToastProvider_init))))"
  by code_simp

text \<open>
  Claim C3, amended. Let a record with id \<open>i\<close> be visible. After \<open>hideToast i\<close>
  the id is still held and none of its records is visible, and one more removal of
  \<open>i\<close> is pending, due 500 ms later. With no further call the id is held at every
  moment before the earliest pending removal of \<open>i\<close> and at no moment from then on.
  That moment is exactly 500 ms after the call when no removal of \<open>i\<close> was pending
  before it, which is so in every state reached from the initial provider by a run whose
  tokens are new; otherwise it is earlier.
\<close>

theorem hideToast_visible:
  assumes "i \<in> set (visible_ids w)"
  shows "i \<in> set (ids (hideToast i w)) \<and> i \<notin> set (visible_ids (hideToast i w)) \<and>
         removals i (hideToast i w) = removals i w @ [now w + 500] \<and>
         Min (set (removals i (hideToast i w))) \<le> now w + 500 \<and>
         (\<forall>t < Min (set (removals i (hideToast i w))). i \<in> set (ids (advance t (hideToast i w)))) \<and>
         (\<forall>t \<ge> Min (set (removals i (hideToast i w))). i \<notin> set (ids (advance t (hideToast i w)))) \<and>
         (removals i w = [] \<longrightarrow> Min (set (removals i (hideToast i w))) = now w + 500) \<and>
         (\<forall>evs. new_tokens evs ToastProvider_init \<and> w = exec evs ToastProvider_init \<longrightarrow>
                removals i w = [])"
proof -
  let ?w' = "hideToast i w"
  let ?D = "Min (set (removals i ?w'))"
  have held: "i \<in> set (ids w)"
    using assms by (auto simp: visible_ids_def ids_def)
  have r: "removals i ?w' = removals i w @ [now w + 500]"
    by (simp add: removals_hideToast)
  have m: "?D \<in> set (removals i ?w')" by (intro Min_in) (simp_all add: r)
  have b: "?D \<le> now w + 500" by (intro Min_le) (simp_all add: r)
  have stays: "i \<in> set (ids (advance t ?w'))" if "t < ?D" for t
  proof -
    have "\<forall>d \<in> set (removals i ?w'). t < d"
    proof
      fix d assume "d \<in> set (removals i ?w')"
      then have "?D \<le> d" by (intro Min_le) simp_all
      with that show "t < d" by simp
    qed
    moreover have "t < now ?w' + 500" using that b by simp
    ultimately have "undisturbed i t ?w'" by (rule undisturbed_soon)
    from undisturbed_advance [OF this] held show ?thesis by simp
  qed
  have goes: "i \<notin> set (ids (advance t ?w'))" if "?D \<le> t" for t
  proof -
    have "(?D, Cleanup i) \<in> set (timers ?w')" using m by (simp add: removals_member)
    from cleanup_runs [OF this that] show ?thesis .
  qed
  have only: "?D = now w + 500" if "removals i w = []"
    using that by (simp add: r)
  have run: "removals i w = []" if "new_tokens evs ToastProvider_init" "w = exec evs ToastProvider_init"
    for evs
  proof -
    have "no_removal_while_visible w"
      using nrv_exec [OF nrv_init that(1)] that(2) by simp
    then show ?thesis using assms by (simp add: no_removal_while_visible_def)
  qed
  show ?thesis
    using held r b stays goes only run by (simp add: visible_ids_hideToast)
qed

theorem hideToast_visible_witness:
  "''a'' \<in> set (visible_ids two_toasts) \<and> removals ''a'' two_toasts = [] \<and>
   new_tokens [ShowToast ''a'' request_plain, ShowToast ''b'' request_2000] ToastProvider_init \<and>
   two_toasts = exec [ShowToast ''a'' request_plain, ShowToast ''b'' request_2000]
                  ToastProvider_init \<and>
   ''a'' \<in> set (ids (hideToast ''a'' two_toasts)) \<and>
   ''a'' \<notin> set (visible_ids (hideToast ''a'' two_toasts)) \<and>
   removals ''a'' (hideToast ''a'' two_toasts) = [500] \<and>
   ''a'' \<in> set (ids (advance 499 (hideToast ''a'' two_toasts))) \<and>
   ''a'' \<notin> set (ids (advance 500 (hideToast ''a'' two_toasts)))"
proof -
  have v: "''a'' \<in> set (visible_ids two_toasts)" by (simp add: two_toasts_alt)
  have r: "removals ''a'' two_toasts = []" by (simp add: two_toasts_alt)
  have e: "new_tokens [ShowToast ''a'' request_plain, ShowToast ''b'' request_2000]
             (ToastProvider_init :: unit world)"
    by (simp add: ids_ToastProvider_init removals_ToastProvider_init)
  have w: "two_toasts = exec [ShowToast ''a'' request_plain, ShowToast ''b'' request_2000]
             ToastProvider_init"
    by (simp add: two_toasts_def)
  have n: "now two_toasts = 0" by (simp add: two_toasts_alt)
  show ?thesis
    by (rule conjI [OF v], rule conjI [OF r], rule conjI [OF e], rule conjI [OF w])
       (use hideToast_visible [OF v] r n in simp)
qed

subsection \<open>C7: hideToast of a closing record\<close>

text \<open>
  Claim C7 says that \<open>hideToast\<close> on a record that is closing schedules no further
  removal. The code has no such guard: each call sets a 500 ms timer of its own.
\<close>

theorem hideToast_twice:
  "removals ''a'' (hideToast ''a'' two_toasts) = [500] \<and>
   removals ''a'' (hideToast ''a'' (hideToast ''a'' two_toasts)) = [500, 500]"
  by (simp add: removals_hideToast two_toasts_alt)

text \<open>
  Claim C7, amended. In a state \<open>w\<close> reached from the initial provider, let the records
  with id \<open>i\<close> be closing. A removal of \<open>i\<close> is pending; a further
  \<open>hideToast i\<close> leaves the collection as it is and the pending removals as they
  are, and adds one removal, due 500 ms from now. With no further call the id is held
  at every moment before the earliest pending removal and at no moment from then on,
  and no record with this id is visible at any moment.
\<close>

theorem hideToast_closing:
  assumes "w = exec evs ToastProvider_init" and "i \<in> set (ids w)"
    and "i \<notin> set (visible_ids w)"
  shows "removals i w \<noteq> [] \<and>
         toasts (hideToast i w) = toasts w \<and>
         removals i (hideToast i w) = removals i w @ [now w + 500] \<and>
         (\<forall>t < Min (set (removals i w)). i \<in> set (ids (advance t (hideToast i w)))) \<and>
         (\<forall>t \<ge> Min (set (removals i w)). i \<notin> set (ids (advance t (hideToast i w)))) \<and>
         (\<forall>t. i \<notin> set (visible_ids (advance t (hideToast i w))))"
proof -
  have "closing_has_removal w"
    using chr_exec [OF chr_init, of evs] assms(1) by simp
  then obtain d0 where d0: "d0 \<in> set (removals i w)" "d0 \<le> now w + 500"
    using assms(2,3) unfolding closing_has_removal_def by blast
  let ?d = "Min (set (removals i w))"
  have ne: "removals i w \<noteq> []" using d0(1) by auto
  have m: "?d \<in> set (removals i w)" using ne by (intro Min_in) simp_all
  have l: "\<forall>d' \<in> set (removals i w). ?d \<le> d'" by simp
  have "?d \<le> d0" using d0(1) by simp
  then have b: "?d \<le> now w + 500" using d0(2) by simp
  from hideToast_closing_state [OF assms(2,3) m l b] ne show ?thesis by simp
qed

theorem hideToast_closing_witness:
  "hideToast ''a'' two_toasts
     = exec [ShowToast ''a'' request_plain, ShowToast ''b'' request_2000, HideToast ''a'']
         ToastProvider_init \<and>
   ''a'' \<in> set (ids (hideToast ''a'' two_toasts)) \<and>
   ''a'' \<notin> set (visible_ids (hideToast ''a'' two_toasts)) \<and>
   removals ''a'' (hideToast ''a'' two_toasts) = [500] \<and>
   toasts (hideToast ''a'' (hideToast ''a'' two_toasts)) = toasts (hideToast ''a'' two_toasts) \<and>
   removals ''a'' (hideToast ''a'' (hideToast ''a'' two_toasts)) = [500, 500] \<and>
   ''a'' \<in> set (ids (advance 499 (hideToast ''a'' (hideToast ''a'' two_toasts)))) \<and>
   ''a'' \<notin> set (ids (advance 500 (hideToast ''a'' (hideToast ''a'' two_toasts)))) \<and>
   ''a'' \<notin> set (visible_ids (advance 1000 (hideToast ''a'' (hideToast ''a'' two_toasts))))"
proof -
  let ?w = "hideToast ''a'' two_toasts"
  have w: "?w = exec [ShowToast ''a'' request_plain, ShowToast ''b'' request_2000, HideToast ''a'']
                  ToastProvider_init"
    by (simp add: two_toasts_def)
  have h1: "''a'' \<in> set (ids ?w)" by (simp add: two_toasts_alt)
  have h2: "''a'' \<notin> set (visible_ids ?w)" by (simp add: visible_ids_hideToast)
  have r: "removals ''a'' ?w = [500]" by (simp add: removals_hideToast two_toasts_alt)
  have n: "now two_toasts = 0" by (simp add: two_toasts_alt)
  show ?thesis
    by (rule conjI [OF w]) (use hideToast_closing [OF w h1 h2] h1 h2 r n in simp)
qed

subsection \<open>C6: automatic dismissal\<close>




end
